theory Spec2Isabelle
  imports Main "HOL-Library.Word"
begin

unbundle bit_operations_syntax

section \<open>Core types (include/cauchy/types.h)\<close>

text \<open>
  The fixed-width integers of the library are words: their arithmetic wraps around as the
  unsigned arithmetic of C does.  \<open>usize\<close> is \<open>uintptr_t\<close>, taken at 64 bits.  A pointer to a
  structure is an \<open>option\<close>: \<open>None\<close> is the null pointer, \<open>Some s\<close> a valid pointer to the
  state \<open>s\<close>.  A function that mutates the structure behind a pointer returns the new state
  beside its result code.  A pointer to a run of bytes with a length is the list of these
  bytes.
\<close>

type_synonym u8 = "8 word"
type_synonym u32 = "32 word"
type_synonym u64 = "64 word"
type_synonym usize = "64 word"
type_synonym cauchy_node_id_t = u64
type_synonym cauchy_timestamp_t = u64

record cauchy_uid_t =
  uid_node_id :: cauchy_node_id_t
  uid_timestamp :: cauchy_timestamp_t

datatype cauchy_result_t =
    CAUCHY_OK
  | CAUCHY_ERR_NOMEM
  | CAUCHY_ERR_INVALID
  | CAUCHY_ERR_NOTFOUND
  | CAUCHY_ERR_EXISTS
  | CAUCHY_ERR_FULL
  | CAUCHY_ERR_EMPTY
  | CAUCHY_ERR_TIMEOUT
  | CAUCHY_ERR_CONCURRENT
  | CAUCHY_ERR_CAUSAL
  | CAUCHY_ERR_NETWORK
  | CAUCHY_ERR_INTERNAL

datatype cauchy_causality_t =
    CAUCHY_HAPPENS_BEFORE
  | CAUCHY_CONCURRENT
  | CAUCHY_HAPPENS_AFTER
  | CAUCHY_EQUAL

definition cauchy_uid_create :: "cauchy_node_id_t \<Rightarrow> cauchy_timestamp_t \<Rightarrow> cauchy_uid_t" where
  "cauchy_uid_create node ts = \<lparr>uid_node_id = node, uid_timestamp = ts\<rparr>"

text \<open>\<open>cauchy_uid_compare\<close> returns the C \<open>int\<close> -1, 0 or 1.\<close>

definition cauchy_uid_compare :: "cauchy_uid_t \<Rightarrow> cauchy_uid_t \<Rightarrow> int" where
  "cauchy_uid_compare a b =
     (if uid_timestamp a \<noteq> uid_timestamp b then
        (if uid_timestamp a < uid_timestamp b then -1 else 1)
      else if uid_node_id a \<noteq> uid_node_id b then
        (if uid_node_id a < uid_node_id b then -1 else 1)
      else 0)"

definition cauchy_uid_equals :: "cauchy_uid_t \<Rightarrow> cauchy_uid_t \<Rightarrow> bool" where
  "cauchy_uid_equals a b \<longleftrightarrow> uid_node_id a = uid_node_id b \<and> uid_timestamp a = uid_timestamp b"

text \<open>
  \<open>memcpy dst src n\<close> is the destination after \<open>n\<close> bytes of \<open>src\<close> were copied to its start;
  \<open>memcmp_eq a b n\<close> is \<open>memcmp(a, b, n) == 0\<close>.  C requires both areas to hold \<open>n\<close> bytes.
\<close>

definition memcpy :: "u8 list \<Rightarrow> u8 list \<Rightarrow> nat \<Rightarrow> u8 list" where
  "memcpy dst src n = take n src @ drop n dst"

definition memcmp_eq :: "u8 list \<Rightarrow> u8 list \<Rightarrow> nat \<Rightarrow> bool" where
  "memcmp_eq a b n \<longleftrightarrow> take n a = take n b"

section \<open>Vector clock (src/core/vclock.c)\<close>

definition CAUCHY_MAX_NODES :: u32 where
  "CAUCHY_MAX_NODES = 64"

text \<open>
  \<open>entries\<close> is the array \<open>u64 entries[CAUCHY_MAX_NODES]\<close>, a list of 64 words in a valid
  clock; the padding field carries no data.
\<close>

record cauchy_vclock_t =
  vc_entries :: "u64 list"
  vc_num_nodes :: u32

definition vclock_valid :: "cauchy_vclock_t \<Rightarrow> bool" where
  "vclock_valid vc \<longleftrightarrow>
     length (vc_entries vc) = unat CAUCHY_MAX_NODES \<and> vc_num_nodes vc \<le> CAUCHY_MAX_NODES"

fun cauchy_vclock_init :: "cauchy_vclock_t option \<Rightarrow> u32 \<Rightarrow> cauchy_vclock_t option" where
  "cauchy_vclock_init None num_nodes = None"
| "cauchy_vclock_init (Some vc) num_nodes =
     Some \<lparr>vc_entries = replicate (unat CAUCHY_MAX_NODES) 0,
           vc_num_nodes = (if num_nodes \<le> CAUCHY_MAX_NODES then num_nodes else CAUCHY_MAX_NODES)\<rparr>"

fun cauchy_vclock_copy ::
  "cauchy_vclock_t option \<Rightarrow> cauchy_vclock_t option \<Rightarrow> cauchy_vclock_t option" where
  "cauchy_vclock_copy (Some dst) (Some src) = Some src"
| "cauchy_vclock_copy dst src = dst"

text \<open>The node id is a \<open>u64\<close>; the comparison with the \<open>u32\<close> count is made at 64 bits.\<close>

fun cauchy_vclock_increment ::
  "cauchy_vclock_t option \<Rightarrow> cauchy_node_id_t \<Rightarrow> cauchy_vclock_t option" where
  "cauchy_vclock_increment None node_id = None"
| "cauchy_vclock_increment (Some vc) node_id =
     (if node_id \<ge> ucast (vc_num_nodes vc) then Some vc
      else Some (vc\<lparr>vc_entries :=
                     (vc_entries vc)[unat node_id := vc_entries vc ! unat node_id + 1]\<rparr>))"

fun cauchy_vclock_get :: "cauchy_vclock_t option \<Rightarrow> cauchy_node_id_t \<Rightarrow> u64" where
  "cauchy_vclock_get None node_id = 0"
| "cauchy_vclock_get (Some vc) node_id =
     (if node_id \<ge> ucast (vc_num_nodes vc) then 0 else vc_entries vc ! unat node_id)"

text \<open>
  The counted loops \<open>for (u32 i = 0; i < max_nodes; i++)\<close> are folds over the indices
  \<open>0, \<dots>, max_nodes - 1\<close>; the step function is the loop body.
\<close>

definition vclock_merge_step :: "cauchy_vclock_t \<Rightarrow> nat \<Rightarrow> u64 list \<Rightarrow> u64 list" where
  "vclock_merge_step src i dst_entries =
     (if vc_entries src ! i > dst_entries ! i
      then dst_entries[i := vc_entries src ! i] else dst_entries)"

fun cauchy_vclock_merge ::
  "cauchy_vclock_t option \<Rightarrow> cauchy_vclock_t option \<Rightarrow> cauchy_vclock_t option" where
  "cauchy_vclock_merge (Some dst) (Some src) =
     (let max_nodes = (if vc_num_nodes dst > vc_num_nodes src
                       then vc_num_nodes dst else vc_num_nodes src)
      in Some \<lparr>vc_entries = fold (vclock_merge_step src) [0..<unat max_nodes] (vc_entries dst),
               vc_num_nodes = (if vc_num_nodes src > vc_num_nodes dst
                               then vc_num_nodes src else vc_num_nodes dst)\<rparr>)"
| "cauchy_vclock_merge dst src = dst"

text \<open>
  \<open>vclock_entry a i\<close> is the read \<open>(i < a->num_nodes) ? a->entries[i] : 0\<close> of the comparison
  loop: an entry at or beyond the active count reads as zero.
\<close>

definition vclock_entry :: "cauchy_vclock_t \<Rightarrow> nat \<Rightarrow> u64" where
  "vclock_entry a i = (if i < unat (vc_num_nodes a) then vc_entries a ! i else 0)"

definition vclock_compare_step ::
  "cauchy_vclock_t \<Rightarrow> cauchy_vclock_t \<Rightarrow> nat \<Rightarrow> bool \<times> bool \<Rightarrow> bool \<times> bool" where
  "vclock_compare_step a b i flags =
     (let av = vclock_entry a i; bv = vclock_entry b i;
          a_less = (if av < bv then True else fst flags);
          a_greater = (if av > bv then True else snd flags)
      in (a_less, a_greater))"

fun cauchy_vclock_compare ::
  "cauchy_vclock_t option \<Rightarrow> cauchy_vclock_t option \<Rightarrow> cauchy_causality_t" where
  "cauchy_vclock_compare (Some a) (Some b) =
     (let max_nodes = (if vc_num_nodes a > vc_num_nodes b
                       then vc_num_nodes a else vc_num_nodes b);
          flags = fold (vclock_compare_step a b) [0..<unat max_nodes] (False, False);
          a_less = fst flags; a_greater = snd flags
      in if \<not> a_less \<and> \<not> a_greater then CAUCHY_EQUAL
         else if a_less \<and> \<not> a_greater then CAUCHY_HAPPENS_BEFORE
         else if \<not> a_less \<and> a_greater then CAUCHY_HAPPENS_AFTER
         else CAUCHY_CONCURRENT)"
| "cauchy_vclock_compare a b = CAUCHY_CONCURRENT"

definition cauchy_vclock_equals ::
  "cauchy_vclock_t option \<Rightarrow> cauchy_vclock_t option \<Rightarrow> bool" where
  "cauchy_vclock_equals a b \<longleftrightarrow> cauchy_vclock_compare a b = CAUCHY_EQUAL"

section \<open>G-Counter (src/crdt/g_counter.c)\<close>

record cauchy_gcounter_t =
  gc_counts :: "u64 list"
  gc_num_nodes :: u32

text \<open>
  A valid counter holds its 64 counts and at most 64 active nodes.  \<open>gcounter_clean\<close> adds
  what \<open>cauchy_gcounter_init\<close> establishes and the mutators keep: the counts at or beyond
  \<open>num_nodes\<close> are zero.
\<close>

definition gcounter_valid :: "cauchy_gcounter_t \<Rightarrow> bool" where
  "gcounter_valid gc \<longleftrightarrow>
     length (gc_counts gc) = unat CAUCHY_MAX_NODES \<and> gc_num_nodes gc \<le> CAUCHY_MAX_NODES"

definition gcounter_clean :: "cauchy_gcounter_t \<Rightarrow> bool" where
  "gcounter_clean gc \<longleftrightarrow>
     gcounter_valid gc \<and>
     list_all (\<lambda>i. gc_counts gc ! i = 0) [unat (gc_num_nodes gc)..<unat CAUCHY_MAX_NODES]"

fun cauchy_gcounter_init :: "cauchy_gcounter_t option \<Rightarrow> u32 \<Rightarrow> cauchy_gcounter_t option" where
  "cauchy_gcounter_init None num_nodes = None"
| "cauchy_gcounter_init (Some gc) num_nodes =
     Some \<lparr>gc_counts = replicate (unat CAUCHY_MAX_NODES) 0,
           gc_num_nodes = (if num_nodes \<le> CAUCHY_MAX_NODES then num_nodes else CAUCHY_MAX_NODES)\<rparr>"

fun cauchy_gcounter_add ::
  "cauchy_gcounter_t option \<Rightarrow> cauchy_node_id_t \<Rightarrow> u64 \<Rightarrow> cauchy_gcounter_t option" where
  "cauchy_gcounter_add None node_id delta = None"
| "cauchy_gcounter_add (Some gc) node_id delta =
     (if node_id \<ge> ucast (gc_num_nodes gc) then Some gc
      else Some (gc\<lparr>gc_counts :=
                     (gc_counts gc)[unat node_id := gc_counts gc ! unat node_id + delta]\<rparr>))"

definition gcounter_merge_step :: "cauchy_gcounter_t \<Rightarrow> nat \<Rightarrow> u64 list \<Rightarrow> u64 list" where
  "gcounter_merge_step src i dst_counts =
     (if i < unat (gc_num_nodes src) \<and> gc_counts src ! i > dst_counts ! i
      then dst_counts[i := gc_counts src ! i] else dst_counts)"

fun cauchy_gcounter_merge ::
  "cauchy_gcounter_t option \<Rightarrow> cauchy_gcounter_t option \<Rightarrow> cauchy_gcounter_t option" where
  "cauchy_gcounter_merge (Some dst) (Some src) =
     (let max_nodes = (if gc_num_nodes dst > gc_num_nodes src
                       then gc_num_nodes dst else gc_num_nodes src)
      in Some \<lparr>gc_counts = fold (gcounter_merge_step src) [0..<unat max_nodes] (gc_counts dst),
               gc_num_nodes = (if gc_num_nodes src > gc_num_nodes dst
                               then gc_num_nodes src else gc_num_nodes dst)\<rparr>)"
| "cauchy_gcounter_merge dst src = dst"

text \<open>
  The loop of \<open>cauchy_gcounter_equals\<close> returns false at the first index whose counts
  differ and true when there is none.
\<close>

fun cauchy_gcounter_equals ::
  "cauchy_gcounter_t option \<Rightarrow> cauchy_gcounter_t option \<Rightarrow> bool" where
  "cauchy_gcounter_equals (Some a) (Some b) =
     (if gc_num_nodes a \<noteq> gc_num_nodes b then False
      else list_all (\<lambda>i. gc_counts a ! i = gc_counts b ! i) [0..<unat (gc_num_nodes a)])"
| "cauchy_gcounter_equals None None = True"
| "cauchy_gcounter_equals a b = False"

fun cauchy_gcounter_copy ::
  "cauchy_gcounter_t option \<Rightarrow> cauchy_gcounter_t option \<Rightarrow> cauchy_gcounter_t option" where
  "cauchy_gcounter_copy (Some dst) (Some src) = Some src"
| "cauchy_gcounter_copy dst src = dst"

section \<open>LWW-Register (src/crdt/lww_register.c)\<close>

definition CAUCHY_LWW_MAX_VALUE_SIZE :: usize where
  "CAUCHY_LWW_MAX_VALUE_SIZE = 256"

record cauchy_lww_register_t =
  lww_value :: "u8 list"
  lww_value_size :: usize
  lww_timestamp :: cauchy_timestamp_t
  lww_node_id :: cauchy_node_id_t

text \<open>\<open>cauchy_lww_init\<close> clears the whole structure with \<open>memset\<close>.\<close>

definition lww_zero :: cauchy_lww_register_t where
  "lww_zero = \<lparr>lww_value = replicate (unat CAUCHY_LWW_MAX_VALUE_SIZE) 0, lww_value_size = 0,
               lww_timestamp = 0, lww_node_id = 0\<rparr>"

fun cauchy_lww_init :: "cauchy_lww_register_t option \<Rightarrow> cauchy_lww_register_t option" where
  "cauchy_lww_init None = None"
| "cauchy_lww_init (Some reg) = Some lww_zero"

fun cauchy_lww_set ::
  "cauchy_lww_register_t option \<Rightarrow> u8 list option \<Rightarrow> usize \<Rightarrow> cauchy_timestamp_t \<Rightarrow>
   cauchy_node_id_t \<Rightarrow> cauchy_result_t \<times> cauchy_lww_register_t option" where
  "cauchy_lww_set None val value_size timestamp node_id = (CAUCHY_ERR_INVALID, None)"
| "cauchy_lww_set (Some reg) val value_size timestamp node_id =
     (if value_size > CAUCHY_LWW_MAX_VALUE_SIZE then (CAUCHY_ERR_FULL, Some reg)
      else if timestamp > lww_timestamp reg \<or>
              (timestamp = lww_timestamp reg \<and> node_id > lww_node_id reg) then
        (CAUCHY_OK,
         Some ((case val of
                  Some v \<Rightarrow>
                    if value_size > 0
                    then reg\<lparr>lww_value := memcpy (lww_value reg) v (unat value_size)\<rparr>
                    else reg
                | None \<Rightarrow> reg)
               \<lparr>lww_value_size := value_size, lww_timestamp := timestamp,
                lww_node_id := node_id\<rparr>))
      else (CAUCHY_OK, Some reg))"

text \<open>\<open>cauchy_lww_copy\<close> copies the whole structure with \<open>memcpy\<close>.\<close>

fun cauchy_lww_copy ::
  "cauchy_lww_register_t option \<Rightarrow> cauchy_lww_register_t option \<Rightarrow>
   cauchy_lww_register_t option" where
  "cauchy_lww_copy (Some dst) (Some src) = Some src"
| "cauchy_lww_copy dst src = dst"

fun cauchy_lww_merge ::
  "cauchy_lww_register_t option \<Rightarrow> cauchy_lww_register_t option \<Rightarrow>
   cauchy_lww_register_t option" where
  "cauchy_lww_merge (Some dst) (Some src) =
     (if lww_timestamp src > lww_timestamp dst \<or>
         (lww_timestamp src = lww_timestamp dst \<and> lww_node_id src > lww_node_id dst)
      then cauchy_lww_copy (Some dst) (Some src)
      else Some dst)"
| "cauchy_lww_merge dst src = dst"

fun cauchy_lww_equals ::
  "cauchy_lww_register_t option \<Rightarrow> cauchy_lww_register_t option \<Rightarrow> bool" where
  "cauchy_lww_equals (Some a) (Some b) =
     (if lww_timestamp a \<noteq> lww_timestamp b then False
      else if lww_node_id a \<noteq> lww_node_id b then False
      else if lww_value_size a \<noteq> lww_value_size b then False
      else memcmp_eq (lww_value a) (lww_value b) (unat (lww_value_size a)))"
| "cauchy_lww_equals None None = True"
| "cauchy_lww_equals a b = False"

text \<open>
  The order on \<open>(timestamp, node_id)\<close> pairs the accept rule uses: the timestamp first, the
  node id among equal timestamps.
\<close>

definition lww_newer :: "cauchy_timestamp_t \<times> cauchy_node_id_t \<Rightarrow>
                         cauchy_timestamp_t \<times> cauchy_node_id_t \<Rightarrow> bool" where
  "lww_newer p q \<longleftrightarrow> fst p > fst q \<or> (fst p = fst q \<and> snd p > snd q)"

definition lww_stamp :: "cauchy_lww_register_t \<Rightarrow> cauchy_timestamp_t \<times> cauchy_node_id_t" where
  "lww_stamp reg = (lww_timestamp reg, lww_node_id reg)"

text \<open>
  \<open>cauchy_lww_get\<close> returns the pointer to the value buffer and stores the size through
  \<open>out_size\<close>: the bytes the caller may read are the first \<open>value_size\<close> bytes of the buffer.
\<close>

fun cauchy_lww_get :: "cauchy_lww_register_t option \<Rightarrow> u8 list option \<times> usize" where
  "cauchy_lww_get None = (None, 0)"
| "cauchy_lww_get (Some reg) =
     (if lww_value_size reg = 0 then (None, 0)
      else (Some (take (unat (lww_value_size reg)) (lww_value reg)), lww_value_size reg))"

section \<open>Serialization (vclock.c, g_counter.c, lww_register.c)\<close>

text \<open>
  \<open>memcpy\<close> of an integer object to and from a byte buffer moves its object representation:
  \<open>le_bytes n w\<close> is the representation of \<open>w\<close> in \<open>n\<close> bytes, least significant byte first
  (the host order the specification assumes), and \<open>le_word\<close> reads it back.  An array of
  \<open>u64\<close> is the concatenation of the representations of its elements.  Sizes of buffers
  and offsets into them are natural numbers: they are bounded by the size of the objects and
  no arithmetic on them can wrap.
\<close>

definition le_bytes :: "nat \<Rightarrow> 'a::len word \<Rightarrow> u8 list" where
  "le_bytes n w = map (\<lambda>k. ucast (drop_bit (8 * k) w)) [0..<n]"

definition le_word :: "u8 list \<Rightarrow> 'a::len word" where
  "le_word bs = word_of_int (horner_sum uint (2 ^ 8) bs)"

definition bytes_of_u64s :: "u64 list \<Rightarrow> u8 list" where
  "bytes_of_u64s xs = concat (map (le_bytes 8) xs)"

definition u64s_of_bytes :: "u8 list \<Rightarrow> u64 list" where
  "u64s_of_bytes bs = map (\<lambda>k. le_word (take 8 (drop (8 * k) bs))) [0..<length bs div 8]"

text \<open>\<open>memcpy_at dst off src n\<close> is \<open>memcpy(dst + off, src, n)\<close>.\<close>

definition memcpy_at :: "u8 list \<Rightarrow> nat \<Rightarrow> u8 list \<Rightarrow> nat \<Rightarrow> u8 list" where
  "memcpy_at dst off src n = take off dst @ take n src @ drop (off + n) dst"

fun cauchy_vclock_serialized_size :: "cauchy_vclock_t option \<Rightarrow> nat" where
  "cauchy_vclock_serialized_size None = 0"
| "cauchy_vclock_serialized_size (Some vc) = 4 + unat (vc_num_nodes vc) * 8"

fun cauchy_vclock_serialize ::
  "cauchy_vclock_t option \<Rightarrow> u8 list option \<Rightarrow> nat \<Rightarrow> nat \<times> u8 list option" where
  "cauchy_vclock_serialize (Some vc) (Some buffer) buffer_size =
     (let needed = cauchy_vclock_serialized_size (Some vc)
      in if buffer_size < needed then (0, Some buffer)
         else
           (needed,
            Some (memcpy_at (memcpy_at buffer 0 (le_bytes 4 (vc_num_nodes vc)) 4)
                    4 (bytes_of_u64s (vc_entries vc)) (unat (vc_num_nodes vc) * 8))))"
| "cauchy_vclock_serialize vc buffer buffer_size = (0, buffer)"

fun cauchy_vclock_deserialize ::
  "cauchy_vclock_t option \<Rightarrow> u8 list option \<Rightarrow> nat \<Rightarrow>
   cauchy_result_t \<times> cauchy_vclock_t option" where
  "cauchy_vclock_deserialize (Some vc) (Some buffer) buffer_size =
     (if buffer_size < 4 then (CAUCHY_ERR_INVALID, Some vc)
      else
        let num_nodes = (le_word (take 4 buffer) :: u32)
        in if num_nodes > CAUCHY_MAX_NODES then (CAUCHY_ERR_INVALID, Some vc)
           else if buffer_size < 4 + unat num_nodes * 8 then (CAUCHY_ERR_INVALID, Some vc)
           else
             (case cauchy_vclock_init (Some vc) num_nodes of
                None \<Rightarrow> (CAUCHY_OK, None)
              | Some vc' \<Rightarrow>
                  (CAUCHY_OK,
                   Some (vc'\<lparr>vc_entries :=
                               u64s_of_bytes
                                 (memcpy (bytes_of_u64s (vc_entries vc')) (drop 4 buffer)
                                    (unat num_nodes * 8))\<rparr>))))"
| "cauchy_vclock_deserialize vc buffer buffer_size = (CAUCHY_ERR_INVALID, vc)"

fun cauchy_gcounter_serialized_size :: "cauchy_gcounter_t option \<Rightarrow> nat" where
  "cauchy_gcounter_serialized_size None = 0"
| "cauchy_gcounter_serialized_size (Some gc) = 4 + unat (gc_num_nodes gc) * 8"

fun cauchy_gcounter_serialize ::
  "cauchy_gcounter_t option \<Rightarrow> u8 list option \<Rightarrow> nat \<Rightarrow> nat \<times> u8 list option" where
  "cauchy_gcounter_serialize (Some gc) (Some buffer) buffer_size =
     (let needed = cauchy_gcounter_serialized_size (Some gc)
      in if buffer_size < needed then (0, Some buffer)
         else
           (needed,
            Some (memcpy_at (memcpy_at buffer 0 (le_bytes 4 (gc_num_nodes gc)) 4)
                    4 (bytes_of_u64s (gc_counts gc)) (unat (gc_num_nodes gc) * 8))))"
| "cauchy_gcounter_serialize gc buffer buffer_size = (0, buffer)"

fun cauchy_gcounter_deserialize ::
  "cauchy_gcounter_t option \<Rightarrow> u8 list option \<Rightarrow> nat \<Rightarrow>
   cauchy_result_t \<times> cauchy_gcounter_t option" where
  "cauchy_gcounter_deserialize (Some gc) (Some buffer) buffer_size =
     (if buffer_size < 4 then (CAUCHY_ERR_INVALID, Some gc)
      else
        let num_nodes = (le_word (take 4 buffer) :: u32)
        in if num_nodes > CAUCHY_MAX_NODES then (CAUCHY_ERR_INVALID, Some gc)
           else if buffer_size < 4 + unat num_nodes * 8 then (CAUCHY_ERR_INVALID, Some gc)
           else
             (case cauchy_gcounter_init (Some gc) num_nodes of
                None \<Rightarrow> (CAUCHY_OK, None)
              | Some gc' \<Rightarrow>
                  (CAUCHY_OK,
                   Some (gc'\<lparr>gc_counts :=
                               u64s_of_bytes
                                 (memcpy (bytes_of_u64s (gc_counts gc')) (drop 4 buffer)
                                    (unat num_nodes * 8))\<rparr>))))"
| "cauchy_gcounter_deserialize gc buffer buffer_size = (CAUCHY_ERR_INVALID, gc)"

definition lww_valid :: "cauchy_lww_register_t \<Rightarrow> bool" where
  "lww_valid reg \<longleftrightarrow>
     length (lww_value reg) = unat CAUCHY_LWW_MAX_VALUE_SIZE \<and>
     lww_value_size reg \<le> CAUCHY_LWW_MAX_VALUE_SIZE"

text \<open>
  The sum of \<open>cauchy_lww_serialized_size\<close> is a \<open>usize\<close> sum and wraps; the result is read as
  a number of bytes.
\<close>

fun cauchy_lww_serialized_size :: "cauchy_lww_register_t option \<Rightarrow> nat" where
  "cauchy_lww_serialized_size None = 0"
| "cauchy_lww_serialized_size (Some reg) = unat (8 + 8 + 8 + lww_value_size reg)"

fun cauchy_lww_serialize ::
  "cauchy_lww_register_t option \<Rightarrow> u8 list option \<Rightarrow> nat \<Rightarrow> nat \<times> u8 list option" where
  "cauchy_lww_serialize (Some reg) (Some buffer) buffer_size =
     (let needed = cauchy_lww_serialized_size (Some reg)
      in if buffer_size < needed then (0, Some buffer)
         else
           let b1 = memcpy_at buffer 0 (le_bytes 8 (lww_timestamp reg)) 8;
               b2 = memcpy_at b1 8 (le_bytes 8 (lww_node_id reg)) 8;
               b3 = memcpy_at b2 16 (le_bytes 8 (lww_value_size reg)) 8;
               b4 = (if lww_value_size reg > 0
                     then memcpy_at b3 24 (lww_value reg) (unat (lww_value_size reg))
                     else b3)
           in (needed, Some b4))"
| "cauchy_lww_serialize reg buffer buffer_size = (0, buffer)"

text \<open>
  \<open>cauchy_lww_deserialize\<close> stores the three header fields before it checks the value
  size, so a rejected buffer leaves them changed.
\<close>

fun cauchy_lww_deserialize ::
  "cauchy_lww_register_t option \<Rightarrow> u8 list option \<Rightarrow> nat \<Rightarrow>
   cauchy_result_t \<times> cauchy_lww_register_t option" where
  "cauchy_lww_deserialize (Some reg) (Some buffer) buffer_size =
     (if buffer_size < 8 + 8 + 8 then (CAUCHY_ERR_INVALID, Some reg)
      else
        let reg1 = reg\<lparr>lww_timestamp := le_word (take 8 buffer),
                       lww_node_id := le_word (take 8 (drop 8 buffer)),
                       lww_value_size := le_word (take 8 (drop 16 buffer))\<rparr>
        in if lww_value_size reg1 > CAUCHY_LWW_MAX_VALUE_SIZE then (CAUCHY_ERR_INVALID, Some reg1)
           else if buffer_size < 24 + unat (lww_value_size reg1) then (CAUCHY_ERR_INVALID, Some reg1)
           else if lww_value_size reg1 > 0 then
             (CAUCHY_OK,
              Some (reg1\<lparr>lww_value :=
                           memcpy (lww_value reg1) (drop 24 buffer) (unat (lww_value_size reg1))\<rparr>))
           else (CAUCHY_OK, Some reg1))"
| "cauchy_lww_deserialize reg buffer buffer_size = (CAUCHY_ERR_INVALID, reg)"

section \<open>Node context (src/core/cauchy.c)\<close>

text \<open>
  The context owns the node id, the local clock and the operation counter; its memory pool
  and hazard domain take no part in the generation of identifiers.  \<open>mem_ok\<close> tells whether
  the allocations of \<open>cauchy_context_create\<close> succeed.
\<close>

record cauchy_context_t =
  ctx_node_id :: cauchy_node_id_t
  ctx_local_clock :: cauchy_vclock_t
  ctx_op_counter :: u64

definition cauchy_context_create :: "bool \<Rightarrow> cauchy_node_id_t \<Rightarrow> cauchy_context_t option" where
  "cauchy_context_create mem_ok node_id =
     (if \<not> mem_ok then None
      else
        (case cauchy_vclock_init (Some \<lparr>vc_entries = replicate (unat CAUCHY_MAX_NODES) 0,
                                         vc_num_nodes = 0\<rparr>) CAUCHY_MAX_NODES of
           None \<Rightarrow> None
         | Some clock \<Rightarrow>
             Some \<lparr>ctx_node_id = node_id, ctx_local_clock = clock, ctx_op_counter = 0\<rparr>))"

fun cauchy_context_gen_uid ::
  "cauchy_context_t option \<Rightarrow> cauchy_uid_t \<times> cauchy_context_t option" where
  "cauchy_context_gen_uid None = (\<lparr>uid_node_id = 0, uid_timestamp = 0\<rparr>, None)"
| "cauchy_context_gen_uid (Some ctx) =
     (case cauchy_vclock_increment (Some (ctx_local_clock ctx)) (ctx_node_id ctx) of
        None \<Rightarrow> (\<lparr>uid_node_id = 0, uid_timestamp = 0\<rparr>, Some ctx)
      | Some clock \<Rightarrow>
          (cauchy_uid_create (ctx_node_id ctx) (cauchy_vclock_get (Some clock) (ctx_node_id ctx)),
           Some (ctx\<lparr>ctx_local_clock := clock, ctx_op_counter := ctx_op_counter ctx + 1\<rparr>)))"

section \<open>G-Set (src/crdt/g_set.c)\<close>

text \<open>
  A bucket is a singly linked chain of elements: the list of its elements from the head;
  the \<open>next\<close> pointer of an element is the rest of the list and the null pointer is the
  empty list.  The bucket array is the list of its chains.  The \<open>(data, size)\<close> argument of a
  call is the list of the \<open>size\<close> bytes at \<open>data\<close>, so \<open>size\<close> is its length.

  The pool and heap allocations of a call are summarised by the flag \<open>mem_ok\<close>: when it is
  false the first allocation the call attempts fails, and the call returns
  \<open>CAUCHY_ERR_NOMEM\<close> as the source does.
\<close>

definition hash_data :: "u8 list \<Rightarrow> u64" where
  "hash_data bytes =
     fold (\<lambda>b hash. (hash XOR ucast b) * 1099511628211) bytes 14695981039346656037"

record cauchy_gset_elem_t =
  ge_data :: "u8 list"
  ge_size :: nat
  ge_hash :: u64

record cauchy_gset_t =
  gs_buckets :: "cauchy_gset_elem_t list list"
  gs_num_buckets :: usize
  gs_count :: usize

fun cauchy_gset_init ::
  "bool \<Rightarrow> cauchy_gset_t option \<Rightarrow> usize \<Rightarrow> cauchy_result_t \<times> cauchy_gset_t option" where
  "cauchy_gset_init mem_ok None initial_capacity = (CAUCHY_ERR_INVALID, None)"
| "cauchy_gset_init mem_ok (Some set0) initial_capacity =
     (let capacity = (if initial_capacity = 0 then 16 else initial_capacity)
      in if \<not> mem_ok then (CAUCHY_ERR_NOMEM, Some set0)
         else (CAUCHY_OK,
               Some \<lparr>gs_buckets = replicate (unat capacity) [], gs_num_buckets = capacity,
                     gs_count = 0\<rparr>))"

definition cauchy_gset_create :: "bool \<Rightarrow> usize \<Rightarrow> cauchy_gset_t option" where
  "cauchy_gset_create mem_ok initial_capacity =
     (if \<not> mem_ok then None
      else
        (case cauchy_gset_init mem_ok
                (Some \<lparr>gs_buckets = [], gs_num_buckets = 0, gs_count = 0\<rparr>) initial_capacity of
           (CAUCHY_OK, set1) \<Rightarrow> set1
         | (_, _) \<Rightarrow> None))"

text \<open>The test of the chain loops: same hash, same size and the same \<open>size\<close> bytes.\<close>

definition gset_elem_matches :: "cauchy_gset_elem_t \<Rightarrow> u64 \<Rightarrow> u8 list \<Rightarrow> bool" where
  "gset_elem_matches elem h d \<longleftrightarrow>
     ge_hash elem = h \<and> ge_size elem = length d \<and> memcmp_eq (ge_data elem) d (length d)"

fun gset_chain_contains :: "cauchy_gset_elem_t list \<Rightarrow> u64 \<Rightarrow> u8 list \<Rightarrow> bool" where
  "gset_chain_contains [] h d = False"
| "gset_chain_contains (elem # rest) h d =
     (if gset_elem_matches elem h d then True else gset_chain_contains rest h d)"

fun cauchy_gset_add ::
  "bool \<Rightarrow> cauchy_gset_t option \<Rightarrow> u8 list option \<Rightarrow> cauchy_result_t \<times> cauchy_gset_t option" where
  "cauchy_gset_add mem_ok (Some set0) (Some d) =
     (if d = [] then (CAUCHY_ERR_INVALID, Some set0)
      else
        let h = hash_data d;
            idx = unat (h mod gs_num_buckets set0)
        in if gset_chain_contains (gs_buckets set0 ! idx) h d then (CAUCHY_OK, Some set0)
           else if \<not> mem_ok then (CAUCHY_ERR_NOMEM, Some set0)
           else
             let new_elem = \<lparr>ge_data = d, ge_size = length d, ge_hash = h\<rparr>
             in (CAUCHY_OK,
                 Some (set0\<lparr>gs_buckets :=
                               (gs_buckets set0)[idx := new_elem # gs_buckets set0 ! idx],
                             gs_count := gs_count set0 + 1\<rparr>)))"
| "cauchy_gset_add mem_ok set0 d = (CAUCHY_ERR_INVALID, set0)"

fun cauchy_gset_contains :: "cauchy_gset_t option \<Rightarrow> u8 list option \<Rightarrow> bool" where
  "cauchy_gset_contains (Some set0) (Some d) =
     (if d = [] then False
      else
        let h = hash_data d;
            idx = unat (h mod gs_num_buckets set0)
        in gset_chain_contains (gs_buckets set0 ! idx) h d)"
| "cauchy_gset_contains set0 d = False"

fun cauchy_gset_count :: "cauchy_gset_t option \<Rightarrow> usize" where
  "cauchy_gset_count None = 0"
| "cauchy_gset_count (Some set0) = gs_count set0"

text \<open>
  The two nested loops of \<open>cauchy_gset_merge\<close> visit the elements of the source bucket by
  bucket and along each chain: the order of \<open>gset_elems\<close>.  The loop stops at the first
  result of \<open>cauchy_gset_add\<close> that is not \<open>CAUCHY_OK\<close>.
\<close>

definition gset_elems :: "cauchy_gset_t \<Rightarrow> cauchy_gset_elem_t list" where
  "gset_elems set0 = concat (take (unat (gs_num_buckets set0)) (gs_buckets set0))"

fun gset_merge_loop ::
  "bool \<Rightarrow> cauchy_gset_t option \<Rightarrow> cauchy_gset_elem_t list \<Rightarrow>
   cauchy_result_t \<times> cauchy_gset_t option" where
  "gset_merge_loop mem_ok dst [] = (CAUCHY_OK, dst)"
| "gset_merge_loop mem_ok dst (elem # rest) =
     (case cauchy_gset_add mem_ok dst (Some (take (ge_size elem) (ge_data elem))) of
        (CAUCHY_OK, dst') \<Rightarrow> gset_merge_loop mem_ok dst' rest
      | (res, dst') \<Rightarrow> (res, dst'))"

fun cauchy_gset_merge ::
  "bool \<Rightarrow> cauchy_gset_t option \<Rightarrow> cauchy_gset_t option \<Rightarrow>
   cauchy_result_t \<times> cauchy_gset_t option" where
  "cauchy_gset_merge mem_ok (Some dst) (Some src) =
     gset_merge_loop mem_ok (Some dst) (gset_elems src)"
| "cauchy_gset_merge mem_ok dst src = (CAUCHY_ERR_INVALID, dst)"

text \<open>
  The iterator holds the set, the index of the current bucket and the pointer to the
  current element, that is, the rest of the current chain.  \<open>gset_iter_skip\<close> is the loop
  \<open>while (!current && bucket_idx < num_buckets - 1)\<close> that moves to the next bucket; the
  subtraction is the wrapping one of \<open>usize\<close>.
\<close>

record cauchy_gset_iter_t =
  it_set :: "cauchy_gset_t option"
  it_bucket_idx :: nat
  it_current :: "cauchy_gset_elem_t list"

function gset_iter_skip ::
  "cauchy_gset_t \<Rightarrow> nat \<Rightarrow> cauchy_gset_elem_t list \<Rightarrow> nat \<times> cauchy_gset_elem_t list" where
  "gset_iter_skip set0 idx cur =
     (if cur = [] \<and> idx < unat (gs_num_buckets set0 - 1)
      then gset_iter_skip set0 (idx + 1) (gs_buckets set0 ! (idx + 1))
      else (idx, cur))"
  by pat_completeness auto
termination
  by (relation "measure (\<lambda>(set0, idx, cur). unat (gs_num_buckets set0 - 1) - idx)") auto

declare gset_iter_skip.simps [simp del]

fun cauchy_gset_iter_init :: "cauchy_gset_t option \<Rightarrow> cauchy_gset_iter_t" where
  "cauchy_gset_iter_init None = \<lparr>it_set = None, it_bucket_idx = 0, it_current = []\<rparr>"
| "cauchy_gset_iter_init (Some set0) =
     (let (idx, cur) = gset_iter_skip set0 0 (gs_buckets set0 ! 0)
      in \<lparr>it_set = Some set0, it_bucket_idx = idx, it_current = cur\<rparr>)"

text \<open>
  \<open>cauchy_gset_iter_next\<close> returns false (\<open>None\<close>) at the end, and otherwise true with the
  data pointer and size of the current element, after moving the iterator on.
\<close>

fun cauchy_gset_iter_next ::
  "cauchy_gset_iter_t \<Rightarrow> (u8 list \<times> nat) option \<times> cauchy_gset_iter_t" where
  "cauchy_gset_iter_next iter =
     (case it_set iter of
        None \<Rightarrow> (None, iter)
      | Some set0 \<Rightarrow>
          (case it_current iter of
             [] \<Rightarrow> (None, iter)
           | elem # rest \<Rightarrow>
               (let (idx, cur) = gset_iter_skip set0 (it_bucket_idx iter) rest
                in (Some (ge_data elem, ge_size elem),
                    iter\<lparr>it_bucket_idx := idx, it_current := cur\<rparr>))))"

section \<open>2P-Set (src/crdt/2p_set.c)\<close>

record cauchy_2pset_t =
  tp_added :: "cauchy_gset_t option"
  tp_removed :: "cauchy_gset_t option"

fun cauchy_2pset_init ::
  "bool \<Rightarrow> cauchy_2pset_t option \<Rightarrow> usize \<Rightarrow> cauchy_result_t \<times> cauchy_2pset_t option" where
  "cauchy_2pset_init mem_ok None initial_capacity = (CAUCHY_ERR_INVALID, None)"
| "cauchy_2pset_init mem_ok (Some set0) initial_capacity =
     (case cauchy_gset_create mem_ok initial_capacity of
        None \<Rightarrow> (CAUCHY_ERR_NOMEM, Some (set0\<lparr>tp_added := None\<rparr>))
      | Some added \<Rightarrow>
          (case cauchy_gset_create mem_ok initial_capacity of
             None \<Rightarrow> (CAUCHY_ERR_NOMEM, Some (set0\<lparr>tp_added := None, tp_removed := None\<rparr>))
           | Some removed \<Rightarrow>
               (CAUCHY_OK, Some \<lparr>tp_added = Some added, tp_removed = Some removed\<rparr>)))"

definition cauchy_2pset_create :: "bool \<Rightarrow> usize \<Rightarrow> cauchy_2pset_t option" where
  "cauchy_2pset_create mem_ok initial_capacity =
     (if \<not> mem_ok then None
      else
        (case cauchy_2pset_init mem_ok (Some \<lparr>tp_added = None, tp_removed = None\<rparr>)
                initial_capacity of
           (CAUCHY_OK, set1) \<Rightarrow> set1
         | (_, _) \<Rightarrow> None))"

fun cauchy_2pset_add ::
  "bool \<Rightarrow> cauchy_2pset_t option \<Rightarrow> u8 list option \<Rightarrow> cauchy_result_t \<times> cauchy_2pset_t option"
  where
  "cauchy_2pset_add mem_ok None d = (CAUCHY_ERR_INVALID, None)"
| "cauchy_2pset_add mem_ok (Some set0) d =
     (if cauchy_gset_contains (tp_removed set0) d then (CAUCHY_OK, Some set0)
      else
        (case cauchy_gset_add mem_ok (tp_added set0) d of
           (res, added') \<Rightarrow> (res, Some (set0\<lparr>tp_added := added'\<rparr>))))"

fun cauchy_2pset_remove ::
  "bool \<Rightarrow> cauchy_2pset_t option \<Rightarrow> u8 list option \<Rightarrow> cauchy_result_t \<times> cauchy_2pset_t option"
  where
  "cauchy_2pset_remove mem_ok None d = (CAUCHY_ERR_INVALID, None)"
| "cauchy_2pset_remove mem_ok (Some set0) d =
     (if \<not> cauchy_gset_contains (tp_added set0) d then (CAUCHY_ERR_NOTFOUND, Some set0)
      else
        (case cauchy_gset_add mem_ok (tp_removed set0) d of
           (res, removed') \<Rightarrow> (res, Some (set0\<lparr>tp_removed := removed'\<rparr>))))"

fun cauchy_2pset_contains :: "cauchy_2pset_t option \<Rightarrow> u8 list option \<Rightarrow> bool" where
  "cauchy_2pset_contains None d = False"
| "cauchy_2pset_contains (Some set0) d =
     (cauchy_gset_contains (tp_added set0) d \<and> \<not> cauchy_gset_contains (tp_removed set0) d)"

fun cauchy_2pset_merge ::
  "bool \<Rightarrow> cauchy_2pset_t option \<Rightarrow> cauchy_2pset_t option \<Rightarrow>
   cauchy_result_t \<times> cauchy_2pset_t option" where
  "cauchy_2pset_merge mem_ok (Some dst) (Some src) =
     (case cauchy_gset_merge mem_ok (tp_added dst) (tp_added src) of
        (CAUCHY_OK, added') \<Rightarrow>
          (case cauchy_gset_merge mem_ok (tp_removed dst) (tp_removed src) of
             (res, removed') \<Rightarrow> (res, Some (dst\<lparr>tp_added := added', tp_removed := removed'\<rparr>)))
      | (res, added') \<Rightarrow> (res, Some (dst\<lparr>tp_added := added'\<rparr>)))"
| "cauchy_2pset_merge mem_ok dst src = (CAUCHY_ERR_INVALID, dst)"

text \<open>
  \<open>cauchy_2pset_count\<close> walks the added set with the iterator and counts the elements that
  the removed set does not contain.  \<open>gset_iter_pending\<close> lists what an iterator has still to
  yield, the rest of its chain and the chains of the buckets after it; each successful
  \<open>cauchy_gset_iter_next\<close> shortens it by one, which is why the loop ends.
\<close>

definition gset_iter_rest :: "cauchy_gset_t \<Rightarrow> nat \<Rightarrow> cauchy_gset_elem_t list" where
  "gset_iter_rest set0 idx =
     concat (map (\<lambda>j. gs_buckets set0 ! j) [Suc idx..<Suc (unat (gs_num_buckets set0 - 1))])"

definition gset_iter_pending :: "cauchy_gset_iter_t \<Rightarrow> cauchy_gset_elem_t list" where
  "gset_iter_pending iter =
     (case it_set iter of
        None \<Rightarrow> []
      | Some set0 \<Rightarrow> it_current iter @ gset_iter_rest set0 (it_bucket_idx iter))"

function twopset_count_loop ::
  "cauchy_gset_t option \<Rightarrow> cauchy_gset_iter_t \<Rightarrow> usize \<Rightarrow> usize" where
  "twopset_count_loop removed iter count =
     (case cauchy_gset_iter_next iter of
        (None, iter') \<Rightarrow> count
      | (Some (d, sz), iter') \<Rightarrow>
          twopset_count_loop removed iter'
            (if \<not> cauchy_gset_contains removed (Some (take sz d)) then count + 1 else count))"
  by pat_completeness auto
termination
proof (relation "measure (\<lambda>(removed, iter, count). length (gset_iter_pending iter))")
  show "wf (measure (\<lambda>(removed, iter, count). length (gset_iter_pending iter)))"
    by simp
next
  fix removed :: "cauchy_gset_t option" and iter :: cauchy_gset_iter_t and count :: usize
    and x iter' y d sz
  assume nxt: "(x, iter') = cauchy_gset_iter_next iter" and x: "x = Some y" and y: "(d, sz) = y"
  have skip: "cur' @ gset_iter_rest set0 idx' = cur @ gset_iter_rest set0 idx"
    if "gset_iter_skip set0 idx cur = (idx', cur')" for set0 idx cur idx' cur'
    using that
  proof (induction set0 idx cur rule: gset_iter_skip.induct)
    case (1 set0 idx cur)
    show ?case
    proof (cases "cur = [] \<and> idx < unat (gs_num_buckets set0 - 1)")
      case True
      then have "gset_iter_skip set0 (idx + 1) (gs_buckets set0 ! (idx + 1)) = (idx', cur')"
        using "1.prems" by (subst (asm) gset_iter_skip.simps) simp
      from "1.IH" [OF True this]
      have "cur' @ gset_iter_rest set0 idx' =
            gs_buckets set0 ! (idx + 1) @ gset_iter_rest set0 (idx + 1)" .
      also have "\<dots> = gset_iter_rest set0 idx"
        using True by (simp add: gset_iter_rest_def upt_conv_Cons del: upt_Suc)
      finally show ?thesis using True by simp
    next
      case False
      then have "(idx', cur') = (idx, cur)"
        using "1.prems" by (subst (asm) gset_iter_skip.simps) auto
      then show ?thesis by simp
    qed
  qed
  obtain set0 elem rest where s: "it_set iter = Some set0" and c: "it_current iter = elem # rest"
    using nxt x by (auto split: option.splits list.splits prod.splits)
  obtain idx cur where sk: "gset_iter_skip set0 (it_bucket_idx iter) rest = (idx, cur)"
    by (cases "gset_iter_skip set0 (it_bucket_idx iter) rest") auto
  have iter': "iter' = iter\<lparr>it_bucket_idx := idx, it_current := cur\<rparr>"
    using nxt s c sk by simp
  have "gset_iter_pending iter' = rest @ gset_iter_rest set0 (it_bucket_idx iter)"
    using skip [OF sk] s by (simp add: gset_iter_pending_def iter')
  moreover have "gset_iter_pending iter = elem # rest @ gset_iter_rest set0 (it_bucket_idx iter)"
    using s c by (simp add: gset_iter_pending_def)
  ultimately show "((removed, iter',
       if \<not> cauchy_gset_contains removed (Some (take sz d)) then count + 1 else count),
      removed, iter, count) \<in> measure (\<lambda>(removed, iter, count). length (gset_iter_pending iter))"
    by simp
qed

declare twopset_count_loop.simps [simp del]

fun cauchy_2pset_count :: "cauchy_2pset_t option \<Rightarrow> usize" where
  "cauchy_2pset_count None = 0"
| "cauchy_2pset_count (Some set0) =
     twopset_count_loop (tp_removed set0) (cauchy_gset_iter_init (tp_added set0)) 0"

fun cauchy_2pset_was_removed :: "cauchy_2pset_t option \<Rightarrow> u8 list option \<Rightarrow> bool" where
  "cauchy_2pset_was_removed None d = False"
| "cauchy_2pset_was_removed (Some set0) d = cauchy_gset_contains (tp_removed set0) d"

text \<open>
  A set made by \<open>cauchy_gset_init\<close> has a bucket array of \<open>num_buckets > 0\<close> chains
  (\<open>gset_wf\<close>).  \<open>twopset_counted\<close> is the test of the counting loop on the element the
  iterator yielded; \<open>gset_iter_settled\<close> holds of an iterator that has moved past its empty
  buckets, as it has after \<open>cauchy_gset_iter_init\<close> and \<open>cauchy_gset_iter_next\<close>.
\<close>

definition gset_wf :: "cauchy_gset_t \<Rightarrow> bool" where
  "gset_wf set0 \<longleftrightarrow>
     gs_num_buckets set0 \<noteq> 0 \<and> length (gs_buckets set0) = unat (gs_num_buckets set0)"

definition twopset_counted :: "cauchy_gset_t option \<Rightarrow> cauchy_gset_elem_t \<Rightarrow> bool" where
  "twopset_counted removed elem \<longleftrightarrow>
     \<not> cauchy_gset_contains removed (Some (take (ge_size elem) (ge_data elem)))"

definition gset_iter_settled :: "cauchy_gset_iter_t \<Rightarrow> bool" where
  "gset_iter_settled iter \<longleftrightarrow>
     (case it_set iter of
        None \<Rightarrow> True
      | Some set0 \<Rightarrow>
          it_current iter = [] \<longrightarrow> \<not> it_bucket_idx iter < unat (gs_num_buckets set0 - 1))"

section \<open>OR-Set (src/crdt/or_set.c)\<close>

record cauchy_orset_entry_t =
  oe_data :: "u8 list"
  oe_size :: nat
  oe_hash :: u64
  oe_tag :: cauchy_uid_t
  oe_removed :: bool

record cauchy_orset_t =
  os_buckets :: "cauchy_orset_entry_t list list"
  os_num_buckets :: usize
  os_entry_count :: usize
  os_active_count :: usize
  os_node_id :: cauchy_node_id_t
  os_timestamp :: cauchy_timestamp_t

fun cauchy_orset_init ::
  "bool \<Rightarrow> cauchy_orset_t option \<Rightarrow> usize \<Rightarrow> cauchy_node_id_t \<Rightarrow>
   cauchy_result_t \<times> cauchy_orset_t option" where
  "cauchy_orset_init mem_ok None initial_capacity node_id = (CAUCHY_ERR_INVALID, None)"
| "cauchy_orset_init mem_ok (Some set0) initial_capacity node_id =
     (let capacity = (if initial_capacity = 0 then 16 else initial_capacity)
      in if \<not> mem_ok then (CAUCHY_ERR_NOMEM, Some set0)
         else (CAUCHY_OK,
               Some \<lparr>os_buckets = replicate (unat capacity) [], os_num_buckets = capacity,
                     os_entry_count = 0, os_active_count = 0, os_node_id = node_id,
                     os_timestamp = 0\<rparr>))"

definition cauchy_orset_create :: "bool \<Rightarrow> usize \<Rightarrow> cauchy_node_id_t \<Rightarrow> cauchy_orset_t option"
  where
  "cauchy_orset_create mem_ok initial_capacity node_id =
     (if \<not> mem_ok then None
      else
        (case cauchy_orset_init mem_ok
                (Some \<lparr>os_buckets = [], os_num_buckets = 0, os_entry_count = 0,
                       os_active_count = 0, os_node_id = 0, os_timestamp = 0\<rparr>)
                initial_capacity node_id of
           (CAUCHY_OK, set1) \<Rightarrow> set1
         | (_, _) \<Rightarrow> None))"

fun cauchy_orset_add ::
  "bool \<Rightarrow> cauchy_orset_t option \<Rightarrow> u8 list option \<Rightarrow>
   cauchy_result_t \<times> cauchy_orset_t option" where
  "cauchy_orset_add mem_ok (Some set0) (Some d) =
     (if d = [] then (CAUCHY_ERR_INVALID, Some set0)
      else
        let h = hash_data d;
            idx = unat (h mod os_num_buckets set0)
        in if \<not> mem_ok then (CAUCHY_ERR_NOMEM, Some set0)
           else
             let entry = \<lparr>oe_data = d, oe_size = length d, oe_hash = h,
                          oe_tag = cauchy_uid_create (os_node_id set0) (os_timestamp set0 + 1),
                          oe_removed = False\<rparr>
             in (CAUCHY_OK,
                 Some (set0\<lparr>os_timestamp := os_timestamp set0 + 1,
                             os_buckets := (os_buckets set0)[idx := entry # os_buckets set0 ! idx],
                             os_entry_count := os_entry_count set0 + 1,
                             os_active_count := os_active_count set0 + 1\<rparr>)))"
| "cauchy_orset_add mem_ok set0 d = (CAUCHY_ERR_INVALID, set0)"

text \<open>
  The test of \<open>cauchy_orset_remove\<close> and \<open>cauchy_orset_contains\<close>: the entry is not a
  tombstone and has the hash, the size and the bytes of the argument.
\<close>

definition orset_entry_matches :: "cauchy_orset_entry_t \<Rightarrow> u64 \<Rightarrow> u8 list \<Rightarrow> bool" where
  "orset_entry_matches entry h d \<longleftrightarrow>
     \<not> oe_removed entry \<and> oe_hash entry = h \<and> oe_size entry = length d \<and>
     memcmp_eq (oe_data entry) d (length d)"

text \<open>
  The loop of \<open>cauchy_orset_remove\<close> along the chain, threading \<open>active_count\<close> and \<open>found\<close>;
  it returns the chain with the matching entries marked.
\<close>

fun orset_remove_chain ::
  "cauchy_orset_entry_t list \<Rightarrow> u64 \<Rightarrow> u8 list \<Rightarrow> usize \<Rightarrow> bool \<Rightarrow>
   cauchy_orset_entry_t list \<times> usize \<times> bool" where
  "orset_remove_chain [] h d active found = ([], active, found)"
| "orset_remove_chain (entry # rest) h d active found =
     (if orset_entry_matches entry h d
      then (case orset_remove_chain rest h d (active - 1) True of
              (rest', active', found') \<Rightarrow> (entry\<lparr>oe_removed := True\<rparr> # rest', active', found'))
      else (case orset_remove_chain rest h d active found of
              (rest', active', found') \<Rightarrow> (entry # rest', active', found')))"

fun cauchy_orset_remove ::
  "cauchy_orset_t option \<Rightarrow> u8 list option \<Rightarrow> cauchy_result_t \<times> cauchy_orset_t option" where
  "cauchy_orset_remove (Some set0) (Some d) =
     (if d = [] then (CAUCHY_ERR_INVALID, Some set0)
      else
        let h = hash_data d;
            idx = unat (h mod os_num_buckets set0)
        in (case orset_remove_chain (os_buckets set0 ! idx) h d (os_active_count set0) False of
              (chain', active', found) \<Rightarrow>
                (if found then CAUCHY_OK else CAUCHY_ERR_NOTFOUND,
                 Some (set0\<lparr>os_buckets := (os_buckets set0)[idx := chain'],
                             os_active_count := active'\<rparr>))))"
| "cauchy_orset_remove set0 d = (CAUCHY_ERR_INVALID, set0)"

fun orset_chain_contains :: "cauchy_orset_entry_t list \<Rightarrow> u64 \<Rightarrow> u8 list \<Rightarrow> bool" where
  "orset_chain_contains [] h d = False"
| "orset_chain_contains (entry # rest) h d =
     (if orset_entry_matches entry h d then True else orset_chain_contains rest h d)"

fun cauchy_orset_contains :: "cauchy_orset_t option \<Rightarrow> u8 list option \<Rightarrow> bool" where
  "cauchy_orset_contains (Some set0) (Some d) =
     (if d = [] then False
      else
        let h = hash_data d;
            idx = unat (h mod os_num_buckets set0)
        in orset_chain_contains (os_buckets set0 ! idx) h d)"
| "cauchy_orset_contains set0 d = False"

fun cauchy_orset_count :: "cauchy_orset_t option \<Rightarrow> usize" where
  "cauchy_orset_count None = 0"
| "cauchy_orset_count (Some set0) = os_active_count set0"

text \<open>
  \<open>find_entry_by_tag\<close> returns a pointer into a chain of the set: the index of the bucket
  and the position of the entry in its chain, or \<open>None\<close> for the null pointer.
\<close>

fun orset_chain_find :: "cauchy_orset_entry_t list \<Rightarrow> u64 \<Rightarrow> cauchy_uid_t \<Rightarrow> nat option" where
  "orset_chain_find [] h t = None"
| "orset_chain_find (entry # rest) h t =
     (if oe_hash entry = h \<and> cauchy_uid_equals (oe_tag entry) t then Some 0
      else map_option Suc (orset_chain_find rest h t))"

definition find_entry_by_tag ::
  "cauchy_orset_t \<Rightarrow> u64 \<Rightarrow> cauchy_uid_t \<Rightarrow> (nat \<times> nat) option" where
  "find_entry_by_tag set0 h t =
     (let idx = unat (h mod os_num_buckets set0)
      in map_option (\<lambda>pos. (idx, pos)) (orset_chain_find (os_buckets set0 ! idx) h t))"

text \<open>
  \<open>orset_merge_entry\<close> is the body of the merge loop for one entry of the source.
  \<open>orset_merge_loop\<close> runs it over the entries of the source in the order the two nested
  loops visit them (\<open>orset_entries\<close>) and returns at the first failed allocation.
\<close>

definition orset_entries :: "cauchy_orset_t \<Rightarrow> cauchy_orset_entry_t list" where
  "orset_entries set0 = concat (take (unat (os_num_buckets set0)) (os_buckets set0))"

definition orset_merge_entry ::
  "bool \<Rightarrow> cauchy_orset_t \<Rightarrow> cauchy_orset_entry_t \<Rightarrow> cauchy_result_t \<times> cauchy_orset_t" where
  "orset_merge_entry mem_ok dst src_entry =
     (case find_entry_by_tag dst (oe_hash src_entry) (oe_tag src_entry) of
        Some (idx, pos) \<Rightarrow>
          (let existing = os_buckets dst ! idx ! pos
           in if oe_removed src_entry \<and> \<not> oe_removed existing
              then (CAUCHY_OK,
                    dst\<lparr>os_buckets :=
                          (os_buckets dst)
                            [idx := (os_buckets dst ! idx)[pos := existing\<lparr>oe_removed := True\<rparr>]],
                        os_active_count := os_active_count dst - 1\<rparr>)
              else (CAUCHY_OK, dst))
      | None \<Rightarrow>
          (let idx = unat (oe_hash src_entry mod os_num_buckets dst)
           in if \<not> mem_ok then (CAUCHY_ERR_NOMEM, dst)
              else
                let new_entry = \<lparr>oe_data = take (oe_size src_entry) (oe_data src_entry),
                                 oe_size = oe_size src_entry, oe_hash = oe_hash src_entry,
                                 oe_tag = oe_tag src_entry, oe_removed = oe_removed src_entry\<rparr>
                in (CAUCHY_OK,
                    dst\<lparr>os_buckets :=
                          (os_buckets dst)[idx := new_entry # os_buckets dst ! idx],
                        os_entry_count := os_entry_count dst + 1,
                        os_active_count :=
                          (if \<not> oe_removed new_entry then os_active_count dst + 1
                           else os_active_count dst)\<rparr>)))"

fun orset_merge_loop ::
  "bool \<Rightarrow> cauchy_orset_t \<Rightarrow> cauchy_orset_entry_t list \<Rightarrow> cauchy_result_t \<times> cauchy_orset_t"
  where
  "orset_merge_loop mem_ok dst [] = (CAUCHY_OK, dst)"
| "orset_merge_loop mem_ok dst (src_entry # rest) =
     (case orset_merge_entry mem_ok dst src_entry of
        (CAUCHY_OK, dst') \<Rightarrow> orset_merge_loop mem_ok dst' rest
      | (res, dst') \<Rightarrow> (res, dst'))"

fun cauchy_orset_merge ::
  "bool \<Rightarrow> cauchy_orset_t option \<Rightarrow> cauchy_orset_t option \<Rightarrow>
   cauchy_result_t \<times> cauchy_orset_t option" where
  "cauchy_orset_merge mem_ok (Some dst) (Some src) =
     (case orset_merge_loop mem_ok dst (orset_entries src) of
        (res, dst') \<Rightarrow> (res, Some dst'))"
| "cauchy_orset_merge mem_ok dst src = (CAUCHY_ERR_INVALID, dst)"

text \<open>
  The invariant of the hash table that \<open>cauchy_orset_init\<close> establishes and the operations
  keep: \<open>num_buckets > 0\<close> chains; every entry lies in the bucket of its hash, which is the
  hash of its payload, and records the size of its payload; and no two entries have the
  same hash and tag, the pair \<open>find_entry_by_tag\<close> identifies an entry by.
\<close>

definition orset_entry_ok :: "usize \<Rightarrow> nat \<Rightarrow> cauchy_orset_entry_t \<Rightarrow> bool" where
  "orset_entry_ok num_buckets i entry \<longleftrightarrow>
     unat (oe_hash entry mod num_buckets) = i \<and> oe_hash entry = hash_data (oe_data entry) \<and>
     oe_size entry = length (oe_data entry)"

definition orset_wf :: "cauchy_orset_t \<Rightarrow> bool" where
  "orset_wf set0 \<longleftrightarrow>
     os_num_buckets set0 \<noteq> 0 \<and> length (os_buckets set0) = unat (os_num_buckets set0) \<and>
     list_all (\<lambda>i. list_all (orset_entry_ok (os_num_buckets set0) i) (os_buckets set0 ! i))
       [0..<length (os_buckets set0)] \<and>
     distinct (map (\<lambda>entry. (oe_hash entry, oe_tag entry)) (orset_entries set0))"

text \<open>
  What the loop of \<open>cauchy_orset_remove\<close> does to one entry: it marks the entry when it
  matches.
\<close>

definition orset_mark :: "u64 \<Rightarrow> u8 list \<Rightarrow> cauchy_orset_entry_t \<Rightarrow> cauchy_orset_entry_t" where
  "orset_mark h d entry =
     (if orset_entry_matches entry h d then entry\<lparr>oe_removed := True\<rparr> else entry)"

text \<open>
  The payloads that have at least one entry that is not a tombstone, each listed once: the
  distinct active keys of the set.
\<close>

definition orset_active_keys :: "cauchy_orset_t \<Rightarrow> u8 list list" where
  "orset_active_keys set0 =
     remdups (map (\<lambda>entry. take (oe_size entry) (oe_data entry))
                (filter (\<lambda>entry. \<not> oe_removed entry) (orset_entries set0)))"

text \<open>
  \<open>find_entry_by_tag\<close> identifies an entry by its hash and tag: the key of the entry.
  \<open>orset_merge_set\<close> is what one round of the merge loop does to the set of entries of the
  destination: an entry with the key of a removed source entry is marked, and a source
  entry whose key the destination does not hold is inserted.
\<close>

definition orset_key :: "cauchy_orset_entry_t \<Rightarrow> u64 \<times> cauchy_uid_t" where
  "orset_key entry = (oe_hash entry, oe_tag entry)"

definition orset_merge_set ::
  "cauchy_orset_entry_t \<Rightarrow> cauchy_orset_entry_t set \<Rightarrow> cauchy_orset_entry_t set" where
  "orset_merge_set src_entry S =
     (\<lambda>x. if orset_key x = orset_key src_entry \<and> oe_removed src_entry
          then x\<lparr>oe_removed := True\<rparr> else x) ` S \<union>
     (if orset_key src_entry \<in> orset_key ` S then {} else {src_entry})"

text \<open>
  The tags under which a set holds a payload: on any entry (\<open>orset_tags\<close>, the tags the set
  has observed for the payload) and on the entries that are not tombstones
  (\<open>orset_active_tags\<close>).
\<close>

definition orset_tags :: "cauchy_orset_t \<Rightarrow> u8 list \<Rightarrow> cauchy_uid_t list" where
  "orset_tags set0 d = map oe_tag (filter (\<lambda>entry. oe_data entry = d) (orset_entries set0))"

definition orset_active_tags :: "cauchy_orset_t \<Rightarrow> u8 list \<Rightarrow> cauchy_uid_t list" where
  "orset_active_tags set0 d =
     map oe_tag (filter (\<lambda>entry. oe_data entry = d \<and> \<not> oe_removed entry) (orset_entries set0))"

section \<open>Properties\<close>

subsection \<open>G-Counter: merge is commutative\<close>

lemma gcounter_merge_fold_length:
  "length (fold (gcounter_merge_step src) [0..<m] c) = length c"
  by (induction m) (simp_all add: gcounter_merge_step_def)

lemma gcounter_merge_fold_nth:
  "j < length c \<Longrightarrow>
   fold (gcounter_merge_step src) [0..<m] c ! j =
     (if j < m \<and> j < unat (gc_num_nodes src) \<and> gc_counts src ! j > c ! j
      then gc_counts src ! j else c ! j)"
proof (induction m arbitrary: j)
  case 0
  then show ?case by simp
next
  case (Suc m)
  define c' where "c' = fold (gcounter_merge_step src) [0..<m] c"
  have len: "length c' = length c"
    by (simp add: c'_def gcounter_merge_fold_length)
  have step: "fold (gcounter_merge_step src) [0..<Suc m] c = gcounter_merge_step src m c'"
    by (simp add: c'_def)
  have old: "c' ! j = (if j < m \<and> j < unat (gc_num_nodes src) \<and> gc_counts src ! j > c ! j
                      then gc_counts src ! j else c ! j)"
    unfolding c'_def using Suc.IH [OF Suc.prems] .
  show ?case
  proof (cases "j = m")
    case True
    have "c' ! m = c ! m"
      unfolding c'_def using Suc.IH [of m] Suc.prems True by simp
    then show ?thesis
      unfolding step using True Suc.prems len
      by (simp add: gcounter_merge_step_def)
  next
    case False
    then have "gcounter_merge_step src m c' ! j = c' ! j"
      by (simp add: gcounter_merge_step_def)
    then show ?thesis
      unfolding step using False old by (auto simp: less_Suc_eq)
  qed
qed

lemma gcounter_clean_zero:
  "gcounter_clean gc \<Longrightarrow> unat (gc_num_nodes gc) \<le> i \<Longrightarrow> i < 64 \<Longrightarrow> gc_counts gc ! i = 0"
  by (auto simp: gcounter_clean_def list_all_iff CAUCHY_MAX_NODES_def)

lemma gcounter_merge_nth:
  assumes "gcounter_clean a" and "gcounter_clean b" and "i < 64"
  shows "\<exists>m. cauchy_gcounter_merge (Some a) (Some b) = Some m \<and>
             gc_counts m ! i = max (gc_counts a ! i) (gc_counts b ! i) \<and>
             gc_num_nodes m = max (gc_num_nodes a) (gc_num_nodes b) \<and>
             length (gc_counts m) = 64"
proof -
  define mx where "mx = (if gc_num_nodes a > gc_num_nodes b then gc_num_nodes a else gc_num_nodes b)"
  define m where "m = \<lparr>gc_counts = fold (gcounter_merge_step b) [0..<unat mx] (gc_counts a),
                        gc_num_nodes = (if gc_num_nodes b > gc_num_nodes a
                                        then gc_num_nodes b else gc_num_nodes a)\<rparr>"
  have eq: "cauchy_gcounter_merge (Some a) (Some b) = Some m"
    by (simp add: m_def mx_def Let_def)
  have la: "length (gc_counts a) = 64"
    using assms(1) by (simp add: gcounter_clean_def gcounter_valid_def CAUCHY_MAX_NODES_def)
  have zb: "unat (gc_num_nodes b) \<le> i \<Longrightarrow> gc_counts b ! i = 0"
    using gcounter_clean_zero [OF assms(2) _ assms(3)] by simp
  have mxb: "unat (gc_num_nodes b) \<le> unat mx"
    by (simp add: mx_def word_less_nat_alt)
  have nth: "gc_counts m ! i =
      (if i < unat mx \<and> i < unat (gc_num_nodes b) \<and> gc_counts b ! i > gc_counts a ! i
       then gc_counts b ! i else gc_counts a ! i)"
    using la assms(3) by (simp add: m_def gcounter_merge_fold_nth)
  have "gc_counts m ! i = max (gc_counts a ! i) (gc_counts b ! i)"
  proof (cases "i < unat (gc_num_nodes b)")
    case True
    then have "i < unat mx" using mxb by simp
    with True nth show ?thesis by (auto simp: max_def)
  next
    case False
    then have "gc_counts b ! i = 0" using zb by simp
    with False nth show ?thesis by (simp add: max_def)
  qed
  moreover have "gc_num_nodes m = max (gc_num_nodes a) (gc_num_nodes b)"
    by (auto simp: m_def max_def)
  moreover have "length (gc_counts m) = 64"
    by (simp add: m_def gcounter_merge_fold_length la)
  ultimately show ?thesis using eq by blast
qed

text \<open>
  C2.  For every pair of valid G-Counters \<open>a\<close> and \<open>b\<close> whose counts at or beyond their
  \<open>num_nodes\<close> are zero, merging \<open>b\<close> into a copy of \<open>a\<close> and merging \<open>a\<close> into a copy of \<open>b\<close>
  give states that \<open>cauchy_gcounter_equals\<close> accepts as equal: both have
  \<open>num_nodes = max(a.num_nodes, b.num_nodes)\<close> and the element-wise maximum of the counts.
\<close>

theorem gcounter_merge_commutative:
  assumes "gcounter_clean a" and "gcounter_clean b"
  shows "\<exists>ab ba.
           cauchy_gcounter_merge (cauchy_gcounter_copy (Some tmp1) (Some a)) (Some b) = Some ab \<and>
           cauchy_gcounter_merge (cauchy_gcounter_copy (Some tmp2) (Some b)) (Some a) = Some ba \<and>
           cauchy_gcounter_equals (Some ab) (Some ba) \<and>
           gc_num_nodes ab = max (gc_num_nodes a) (gc_num_nodes b) \<and>
           gc_num_nodes ba = max (gc_num_nodes a) (gc_num_nodes b) \<and>
           (\<forall>i<64. gc_counts ab ! i = max (gc_counts a ! i) (gc_counts b ! i) \<and>
                    gc_counts ba ! i = max (gc_counts a ! i) (gc_counts b ! i))"
proof -
  obtain ab where ab: "cauchy_gcounter_merge (Some a) (Some b) = Some ab"
      "gc_num_nodes ab = max (gc_num_nodes a) (gc_num_nodes b)"
    using gcounter_merge_nth [OF assms, of 0] by auto
  obtain ba where ba: "cauchy_gcounter_merge (Some b) (Some a) = Some ba"
      "gc_num_nodes ba = max (gc_num_nodes b) (gc_num_nodes a)"
    using gcounter_merge_nth [OF assms(2,1), of 0] by auto
  have nth: "gc_counts ab ! i = max (gc_counts a ! i) (gc_counts b ! i) \<and>
             gc_counts ba ! i = max (gc_counts a ! i) (gc_counts b ! i)" if "i < 64" for i
    using gcounter_merge_nth [OF assms that] gcounter_merge_nth [OF assms(2,1) that] ab(1) ba(1)
    by (auto simp: max.commute)
  have bound: "unat (gc_num_nodes ab) \<le> 64"
    using assms ab(2)
    by (auto simp: gcounter_clean_def gcounter_valid_def CAUCHY_MAX_NODES_def word_le_nat_alt
        max_def)
  have eq: "cauchy_gcounter_equals (Some ab) (Some ba)"
    using ab(2) ba(2) nth bound by (auto simp: list_all_iff max.commute)
  show ?thesis
    using ab ba nth eq by (auto simp: max.commute)
qed

theorem gcounter_merge_commutative_witness:
  "gcounter_clean \<lparr>gc_counts = [5, 3, 0] @ replicate 61 0, gc_num_nodes = 3\<rparr> \<and>
   gcounter_clean \<lparr>gc_counts = [0, 7] @ replicate 62 0, gc_num_nodes = 2\<rparr> \<and>
   cauchy_gcounter_equals
     (cauchy_gcounter_merge
        (cauchy_gcounter_copy (Some \<lparr>gc_counts = [], gc_num_nodes = 0\<rparr>)
           (Some \<lparr>gc_counts = [5, 3, 0] @ replicate 61 0, gc_num_nodes = 3\<rparr>))
        (Some \<lparr>gc_counts = [0, 7] @ replicate 62 0, gc_num_nodes = 2\<rparr>))
     (cauchy_gcounter_merge
        (cauchy_gcounter_copy (Some \<lparr>gc_counts = [], gc_num_nodes = 0\<rparr>)
           (Some \<lparr>gc_counts = [0, 7] @ replicate 62 0, gc_num_nodes = 2\<rparr>))
        (Some \<lparr>gc_counts = [5, 3, 0] @ replicate 61 0, gc_num_nodes = 3\<rparr>))"
proof -
  have h1: "gcounter_clean \<lparr>gc_counts = [5, 3, 0] @ replicate 61 0, gc_num_nodes = 3\<rparr>"
    by (simp add: gcounter_clean_def gcounter_valid_def CAUCHY_MAX_NODES_def list_all_iff nth_append)
  have h2: "gcounter_clean \<lparr>gc_counts = [0, 7] @ replicate 62 0, gc_num_nodes = 2\<rparr>"
    by (simp add: gcounter_clean_def gcounter_valid_def CAUCHY_MAX_NODES_def list_all_iff nth_append nth_Cons')
  show ?thesis
    using h1 h2
      gcounter_merge_commutative [OF h1 h2, of "\<lparr>gc_counts = [], gc_num_nodes = 0\<rparr>"
        "\<lparr>gc_counts = [], gc_num_nodes = 0\<rparr>"]
    by auto
qed

subsection \<open>Vector clock: causality comparison\<close>

lemma vclock_compare_fold:
  "fold (vclock_compare_step a b) [0..<m] (l, g) =
     (l \<or> (\<exists>i<m. vclock_entry a i < vclock_entry b i),
      g \<or> (\<exists>i<m. vclock_entry a i > vclock_entry b i))"
  by (induction m) (auto simp: vclock_compare_step_def Let_def less_Suc_eq)

lemma vclock_entry_beyond:
  "unat (vc_num_nodes a) \<le> i \<Longrightarrow> vclock_entry a i = 0"
  by (simp add: vclock_entry_def)

lemma vclock_compare_flags:
  defines "mx a b \<equiv> (if vc_num_nodes a > vc_num_nodes b then vc_num_nodes a else vc_num_nodes b)"
  shows "(\<exists>i<unat (mx a b). vclock_entry a i < vclock_entry b i) \<longleftrightarrow>
         (\<exists>i. vclock_entry a i < vclock_entry b i)"
    and "(\<exists>i<unat (mx a b). vclock_entry a i > vclock_entry b i) \<longleftrightarrow>
         (\<exists>i. vclock_entry a i > vclock_entry b i)"
proof -
  have out: "vclock_entry a i = 0 \<and> vclock_entry b i = 0" if "\<not> i < unat (mx a b)" for i
    using that by (auto simp: mx_def vclock_entry_def word_less_nat_alt split: if_splits)
  show "(\<exists>i<unat (mx a b). vclock_entry a i < vclock_entry b i) \<longleftrightarrow>
         (\<exists>i. vclock_entry a i < vclock_entry b i)"
    using out by (metis less_irrefl)
  show "(\<exists>i<unat (mx a b). vclock_entry a i > vclock_entry b i) \<longleftrightarrow>
         (\<exists>i. vclock_entry a i > vclock_entry b i)"
    using out by (metis less_irrefl)
qed

lemma vclock_compare_char:
  "cauchy_vclock_compare (Some a) (Some b) =
     (let a_less = (\<exists>i. vclock_entry a i < vclock_entry b i);
          a_greater = (\<exists>i. vclock_entry a i > vclock_entry b i)
      in if \<not> a_less \<and> \<not> a_greater then CAUCHY_EQUAL
         else if a_less \<and> \<not> a_greater then CAUCHY_HAPPENS_BEFORE
         else if \<not> a_less \<and> a_greater then CAUCHY_HAPPENS_AFTER
         else CAUCHY_CONCURRENT)"
  unfolding cauchy_vclock_compare.simps Let_def vclock_compare_fold fst_conv snd_conv
    vclock_compare_flags
  by simp

lemma vclock_compare_cases:
  "(cauchy_vclock_compare (Some a) (Some b) = CAUCHY_EQUAL \<longleftrightarrow>
      (\<forall>i. vclock_entry a i = vclock_entry b i)) \<and>
   (cauchy_vclock_compare (Some a) (Some b) = CAUCHY_HAPPENS_BEFORE \<longleftrightarrow>
      (\<forall>i. vclock_entry a i \<le> vclock_entry b i) \<and>
      (\<exists>i. vclock_entry a i < vclock_entry b i)) \<and>
   (cauchy_vclock_compare (Some a) (Some b) = CAUCHY_HAPPENS_AFTER \<longleftrightarrow>
      (\<forall>i. vclock_entry b i \<le> vclock_entry a i) \<and>
      (\<exists>i. vclock_entry b i < vclock_entry a i)) \<and>
   (cauchy_vclock_compare (Some a) (Some b) = CAUCHY_CONCURRENT \<longleftrightarrow>
      (\<exists>i. vclock_entry a i < vclock_entry b i) \<and>
      (\<exists>i. vclock_entry b i < vclock_entry a i))"
proof -
  define L where "L \<longleftrightarrow> (\<exists>i. vclock_entry a i < vclock_entry b i)"
  define G where "G \<longleftrightarrow> (\<exists>i. vclock_entry b i < vclock_entry a i)"
  have cmp: "cauchy_vclock_compare (Some a) (Some b) =
      (if \<not> L \<and> \<not> G then CAUCHY_EQUAL
       else if L \<and> \<not> G then CAUCHY_HAPPENS_BEFORE
       else if \<not> L \<and> G then CAUCHY_HAPPENS_AFTER
       else CAUCHY_CONCURRENT)"
    unfolding vclock_compare_char Let_def L_def G_def by simp
  have nL: "\<not> L \<longleftrightarrow> (\<forall>i. vclock_entry b i \<le> vclock_entry a i)"
    by (simp add: L_def not_less)
  have nG: "\<not> G \<longleftrightarrow> (\<forall>i. vclock_entry a i \<le> vclock_entry b i)"
    by (simp add: G_def not_less)
  have eq: "\<not> L \<and> \<not> G \<longleftrightarrow> (\<forall>i. vclock_entry a i = vclock_entry b i)"
    unfolding nL nG by (metis order.antisym order.refl)
  have c1: "cauchy_vclock_compare (Some a) (Some b) = CAUCHY_EQUAL \<longleftrightarrow> \<not> L \<and> \<not> G"
    unfolding cmp by simp
  have c2: "cauchy_vclock_compare (Some a) (Some b) = CAUCHY_HAPPENS_BEFORE \<longleftrightarrow> \<not> G \<and> L"
    unfolding cmp by auto
  have c3: "cauchy_vclock_compare (Some a) (Some b) = CAUCHY_HAPPENS_AFTER \<longleftrightarrow> \<not> L \<and> G"
    unfolding cmp by auto
  have c4: "cauchy_vclock_compare (Some a) (Some b) = CAUCHY_CONCURRENT \<longleftrightarrow> L \<and> G"
    unfolding cmp by auto
  show ?thesis
    unfolding c1 c2 c3 c4 eq unfolding nL nG unfolding L_def G_def by blast
qed

lemma vclock_compare_examples:
  "cauchy_vclock_compare (Some \<lparr>vc_entries = [3, 2, 0] @ replicate 61 0, vc_num_nodes = 3\<rparr>)
     (Some \<lparr>vc_entries = [3, 2, 1] @ replicate 61 0, vc_num_nodes = 3\<rparr>) = CAUCHY_HAPPENS_BEFORE"
  "cauchy_vclock_compare (Some \<lparr>vc_entries = [3, 2, 0] @ replicate 61 0, vc_num_nodes = 3\<rparr>)
     (Some \<lparr>vc_entries = [3, 3, 0] @ replicate 61 0, vc_num_nodes = 3\<rparr>) = CAUCHY_HAPPENS_BEFORE"
  "cauchy_vclock_compare (Some \<lparr>vc_entries = [3, 2, 0] @ replicate 61 0, vc_num_nodes = 3\<rparr>)
     (Some \<lparr>vc_entries = [4, 1, 0] @ replicate 61 0, vc_num_nodes = 3\<rparr>) = CAUCHY_CONCURRENT"
  by (simp_all add: Let_def vclock_compare_step_def vclock_entry_def upt_conv_Cons)

text \<open>
  C3.  For all non-null clocks \<open>a\<close> and \<open>b\<close>, with an entry at or beyond a side's \<open>num_nodes\<close>
  read as zero (\<open>vclock_entry\<close>), \<open>cauchy_vclock_compare\<close> returns \<open>CAUCHY_EQUAL\<close> iff all
  entries agree, \<open>CAUCHY_HAPPENS_BEFORE\<close> iff every entry of \<open>a\<close> is at most the entry of \<open>b\<close>
  and one is strictly less, \<open>CAUCHY_HAPPENS_AFTER\<close> in the symmetric case, and
  \<open>CAUCHY_CONCURRENT\<close> otherwise (one entry strictly less and another strictly greater).
  For \<open>A = {3,2,0}\<close>, \<open>B = {3,2,1}\<close>, \<open>B' = {3,3,0}\<close>, \<open>C = {4,1,0}\<close>: \<open>compare(A,B)\<close> and
  \<open>compare(A,B')\<close> are happens-before, \<open>compare(A,C)\<close> is concurrent.
\<close>

theorem vclock_compare_causality:
  "(cauchy_vclock_compare (Some a) (Some b) = CAUCHY_EQUAL \<longleftrightarrow>
      (\<forall>i. vclock_entry a i = vclock_entry b i)) \<and>
   (cauchy_vclock_compare (Some a) (Some b) = CAUCHY_HAPPENS_BEFORE \<longleftrightarrow>
      (\<forall>i. vclock_entry a i \<le> vclock_entry b i) \<and>
      (\<exists>i. vclock_entry a i < vclock_entry b i)) \<and>
   (cauchy_vclock_compare (Some a) (Some b) = CAUCHY_HAPPENS_AFTER \<longleftrightarrow>
      (\<forall>i. vclock_entry b i \<le> vclock_entry a i) \<and>
      (\<exists>i. vclock_entry b i < vclock_entry a i)) \<and>
   (cauchy_vclock_compare (Some a) (Some b) = CAUCHY_CONCURRENT \<longleftrightarrow>
      (\<exists>i. vclock_entry a i < vclock_entry b i) \<and>
      (\<exists>i. vclock_entry b i < vclock_entry a i)) \<and>
   cauchy_vclock_compare (Some \<lparr>vc_entries = [3, 2, 0] @ replicate 61 0, vc_num_nodes = 3\<rparr>)
     (Some \<lparr>vc_entries = [3, 2, 1] @ replicate 61 0, vc_num_nodes = 3\<rparr>) =
     CAUCHY_HAPPENS_BEFORE \<and>
   cauchy_vclock_compare (Some \<lparr>vc_entries = [3, 2, 0] @ replicate 61 0, vc_num_nodes = 3\<rparr>)
     (Some \<lparr>vc_entries = [3, 3, 0] @ replicate 61 0, vc_num_nodes = 3\<rparr>) =
     CAUCHY_HAPPENS_BEFORE \<and>
   cauchy_vclock_compare (Some \<lparr>vc_entries = [3, 2, 0] @ replicate 61 0, vc_num_nodes = 3\<rparr>)
     (Some \<lparr>vc_entries = [4, 1, 0] @ replicate 61 0, vc_num_nodes = 3\<rparr>) =
     CAUCHY_CONCURRENT"
  using vclock_compare_cases [of a b] vclock_compare_examples by blast

theorem vclock_compare_causality_witness:
  "cauchy_vclock_compare (Some \<lparr>vc_entries = [3, 2, 0] @ replicate 61 0, vc_num_nodes = 3\<rparr>)
     (Some \<lparr>vc_entries = [3, 2, 1] @ replicate 61 0, vc_num_nodes = 3\<rparr>) =
     CAUCHY_HAPPENS_BEFORE \<and>
   (\<forall>i. vclock_entry \<lparr>vc_entries = [3, 2, 0] @ replicate 61 0, vc_num_nodes = 3\<rparr> i \<le>
        vclock_entry \<lparr>vc_entries = [3, 2, 1] @ replicate 61 0, vc_num_nodes = 3\<rparr> i) \<and>
   (\<exists>i. vclock_entry \<lparr>vc_entries = [3, 2, 0] @ replicate 61 0, vc_num_nodes = 3\<rparr> i <
        vclock_entry \<lparr>vc_entries = [3, 2, 1] @ replicate 61 0, vc_num_nodes = 3\<rparr> i)"
  using vclock_compare_causality
          [of "\<lparr>vc_entries = [3, 2, 0] @ replicate 61 0, vc_num_nodes = 3\<rparr>"
              "\<lparr>vc_entries = [3, 2, 1] @ replicate 61 0, vc_num_nodes = 3\<rparr>"]
  by blast

subsection \<open>LWW-Register: accept rule and size ceiling\<close>

lemma lww_set_accept:
  assumes "value_size \<le> 256"
  shows "\<exists>reg'. cauchy_lww_set (Some reg) val value_size ts node = (CAUCHY_OK, Some reg') \<and>
           (if lww_newer (ts, node) (lww_stamp reg)
            then lww_value_size reg' = value_size \<and> lww_timestamp reg' = ts \<and>
                 lww_node_id reg' = node \<and>
                 lww_value reg' =
                   (case val of
                      Some v \<Rightarrow> take (unat value_size) v @ drop (unat value_size) (lww_value reg)
                    | None \<Rightarrow> lww_value reg)
            else reg' = reg)"
proof -
  have le: "\<not> CAUCHY_LWW_MAX_VALUE_SIZE < value_size"
    using assms by (simp add: CAUCHY_LWW_MAX_VALUE_SIZE_def not_less)
  have zero: "value_size = 0" if "\<not> 0 < value_size"
    using that by (simp add: word_gt_0)
  show ?thesis
  proof (cases val)
    case None
    then show ?thesis
      using le by (simp add: lww_newer_def lww_stamp_def)
  next
    case (Some v)
    then show ?thesis
      using le zero by (auto simp: lww_newer_def lww_stamp_def memcpy_def)
  qed
qed

lemma lww_merge_accept:
  "cauchy_lww_merge (Some dst) (Some src) =
     Some (if lww_newer (lww_stamp src) (lww_stamp dst) then src else dst)"
  by (simp add: lww_newer_def lww_stamp_def)

lemma lww_tie_break_example:
  "(let r1 = snd (cauchy_lww_set (cauchy_lww_init (Some reg0)) (Some [118, 49]) 2 5 2);
        r2 = snd (cauchy_lww_set r1 (Some [118, 50]) 2 5 1);
        r3 = snd (cauchy_lww_set r2 (Some [118, 51]) 2 5 3)
    in cauchy_lww_get r1 = (Some [118, 49], 2) \<and> r2 = r1 \<and>
       cauchy_lww_get r3 = (Some [118, 51], 2) \<and>
       map_option lww_stamp r2 = Some (5, 2) \<and> map_option lww_stamp r3 = Some (5, 3))"
  by (simp add: Let_def lww_zero_def CAUCHY_LWW_MAX_VALUE_SIZE_def memcpy_def lww_stamp_def)

text \<open>
  C4.  Within the size ceiling of the register (\<open>value_size \<le> 256\<close>; a larger write is
  refused before the rule is applied), for every register, value pointer, size and stamp,
  \<open>cauchy_lww_set\<close> returns \<open>CAUCHY_OK\<close> and replaces the stored value, \<open>value_size\<close>,
  \<open>timestamp\<close> and \<open>node_id\<close> exactly when the incoming \<open>(timestamp, node_id)\<close> pair is
  lexicographically greater than the stored pair (the higher \<open>node_id\<close> wins among equal
  timestamps); otherwise the write is dropped and the register is unchanged.  Replacing the
  value copies the \<open>value_size\<close> bytes of the incoming value over the start of the value
  buffer; a null value pointer (as \<open>cauchy_lww_set_string(NULL)\<close> passes, with size 0) copies
  no byte.  \<open>cauchy_lww_merge\<close> replaces the whole destination by the source exactly when the
  pair of the source is greater.  Starting from an initialised register,
  \<open>set(v1, ts=5, node=2)\<close> followed by \<open>set(v2, ts=5, node=1)\<close> leaves \<open>v1\<close>, and
  \<open>set(v3, ts=5, node=3)\<close> then stores \<open>v3\<close> (the values being the two-byte strings "v1",
  "v2", "v3").
\<close>

theorem lww_accept_rule:
  assumes "value_size \<le> 256"
  shows "(\<exists>reg'. cauchy_lww_set (Some reg) val value_size ts node = (CAUCHY_OK, Some reg') \<and>
           (if lww_newer (ts, node) (lww_stamp reg)
            then lww_value_size reg' = value_size \<and> lww_timestamp reg' = ts \<and>
                 lww_node_id reg' = node \<and>
                 lww_value reg' =
                   (case val of
                      Some v \<Rightarrow> take (unat value_size) v @ drop (unat value_size) (lww_value reg)
                    | None \<Rightarrow> lww_value reg)
            else reg' = reg)) \<and>
         cauchy_lww_merge (Some dst) (Some src) =
           Some (if lww_newer (lww_stamp src) (lww_stamp dst) then src else dst) \<and>
         (let r1 = snd (cauchy_lww_set (cauchy_lww_init (Some reg0)) (Some [118, 49]) 2 5 2);
              r2 = snd (cauchy_lww_set r1 (Some [118, 50]) 2 5 1);
              r3 = snd (cauchy_lww_set r2 (Some [118, 51]) 2 5 3)
          in cauchy_lww_get r1 = (Some [118, 49], 2) \<and> r2 = r1 \<and>
             cauchy_lww_get r3 = (Some [118, 51], 2) \<and>
             map_option lww_stamp r2 = Some (5, 2) \<and> map_option lww_stamp r3 = Some (5, 3))"
  using lww_set_accept [OF assms] lww_merge_accept lww_tie_break_example by blast

theorem lww_accept_rule_witness:
  "(2 :: usize) \<le> 256 \<and> lww_newer (5, 2) (lww_stamp lww_zero) \<and>
   (\<exists>reg'. cauchy_lww_set (Some lww_zero) (Some [118, 49]) 2 5 2 = (CAUCHY_OK, Some reg') \<and>
            lww_value_size reg' = 2 \<and> lww_timestamp reg' = 5 \<and> lww_node_id reg' = 2 \<and>
            lww_value reg' = [118, 49] @ replicate 254 0) \<and>
   (0 :: usize) \<le> 256 \<and> lww_newer (7, 0) (lww_stamp lww_zero) \<and>
   (\<exists>reg'. cauchy_lww_set (Some lww_zero) None 0 7 0 = (CAUCHY_OK, Some reg') \<and>
            lww_value_size reg' = 0 \<and> lww_timestamp reg' = 7 \<and> lww_node_id reg' = 0 \<and>
            lww_value reg' = replicate 256 0)"
proof -
  have h: "(2 :: usize) \<le> 256" "(0 :: usize) \<le> 256"
    by simp_all
  have n: "lww_newer (5, 2) (lww_stamp lww_zero)" "lww_newer (7, 0) (lww_stamp lww_zero)"
    by (simp_all add: lww_newer_def lww_stamp_def lww_zero_def)
  have v: "lww_value lww_zero = replicate 256 0"
    by (simp add: lww_zero_def CAUCHY_LWW_MAX_VALUE_SIZE_def)
  have a: "\<exists>reg'. cauchy_lww_set (Some lww_zero) (Some [118, 49]) 2 5 2 = (CAUCHY_OK, Some reg') \<and>
            lww_value_size reg' = 2 \<and> lww_timestamp reg' = 5 \<and> lww_node_id reg' = 2 \<and>
            lww_value reg' = [118, 49] @ replicate 254 0"
    using lww_accept_rule [OF h(1), where val = "Some [118, 49]" and reg = lww_zero
          and ts = 5 and node = 2 and dst = lww_zero and src = lww_zero and reg0 = lww_zero]
      n(1) v
    by (simp del: cauchy_lww_set.simps cauchy_lww_merge.simps)
  have b: "\<exists>reg'. cauchy_lww_set (Some lww_zero) None 0 7 0 = (CAUCHY_OK, Some reg') \<and>
            lww_value_size reg' = 0 \<and> lww_timestamp reg' = 7 \<and> lww_node_id reg' = 0 \<and>
            lww_value reg' = replicate 256 0"
    using lww_accept_rule [OF h(2), where val = None and reg = lww_zero
          and ts = 7 and node = 0 and dst = lww_zero and src = lww_zero and reg0 = lww_zero]
      n(2) v
    by (simp del: cauchy_lww_set.simps cauchy_lww_merge.simps)
  show ?thesis
    using h n a b by blast
qed

text \<open>
  C9.  For every register and every call of \<open>cauchy_lww_set\<close> with \<open>value_size > 256\<close>
  (\<open>CAUCHY_LWW_MAX_VALUE_SIZE\<close>), the call returns \<open>CAUCHY_ERR_FULL\<close> and the register, with
  all its fields, is unchanged; a call with \<open>value_size \<le> 256\<close> never returns
  \<open>CAUCHY_ERR_FULL\<close> (also on a null register, where it returns \<open>CAUCHY_ERR_INVALID\<close>).
\<close>

theorem lww_set_size_ceiling:
  "unat CAUCHY_LWW_MAX_VALUE_SIZE = 256 \<and>
   (256 < value_size \<longrightarrow>
      cauchy_lww_set (Some reg) val value_size ts node = (CAUCHY_ERR_FULL, Some reg)) \<and>
   (value_size \<le> 256 \<longrightarrow>
      fst (cauchy_lww_set r val value_size ts node) \<noteq> CAUCHY_ERR_FULL)"
  by (cases r) (auto simp: CAUCHY_LWW_MAX_VALUE_SIZE_def)

theorem lww_set_size_ceiling_witness:
  "(256 :: usize) < 257 \<and>
   cauchy_lww_set (Some lww_zero) (Some (replicate 257 1)) 257 1 1 =
     (CAUCHY_ERR_FULL, Some lww_zero) \<and>
   (5 :: usize) \<le> 256 \<and>
   fst (cauchy_lww_set (Some lww_zero) (Some [1, 2, 3, 4, 5]) 5 1 1) \<noteq> CAUCHY_ERR_FULL"
  using lww_set_size_ceiling [where value_size = 257 and reg = lww_zero
          and val = "Some (replicate 257 1)" and ts = 1 and node = 1]
        lww_set_size_ceiling [where value_size = 5 and r = "Some lww_zero"
          and val = "Some [1, 2, 3, 4, 5]" and ts = 1 and node = 1]
  by simp

text \<open>
  C10.  For every register and every call of \<open>cauchy_lww_set\<close> with \<open>value_size \<le> 256\<close> whose
  \<open>(timestamp, node_id)\<close> pair is lexicographically less than or equal to the stored pair,
  the call returns \<open>CAUCHY_OK\<close>, as an accepted write does, and leaves the value,
  \<open>value_size\<close>, \<open>timestamp\<close> and \<open>node_id\<close> unchanged.
\<close>

theorem lww_set_dropped_write_ok:
  assumes "value_size \<le> 256"
    and "ts < lww_timestamp reg \<or> (ts = lww_timestamp reg \<and> node \<le> lww_node_id reg)"
  shows "cauchy_lww_set (Some reg) val value_size ts node = (CAUCHY_OK, Some reg)"
  using assms by (auto simp: CAUCHY_LWW_MAX_VALUE_SIZE_def)

theorem lww_set_dropped_write_ok_witness:
  "(2 :: usize) \<le> 256 \<and> (5 :: u64) = 5 \<and> (1 :: u64) \<le> 2 \<and>
   cauchy_lww_set
     (Some \<lparr>lww_value = [118, 49] @ replicate 254 0, lww_value_size = 2,
            lww_timestamp = 5, lww_node_id = 2\<rparr>)
     (Some [118, 50]) 2 5 1 =
   (CAUCHY_OK,
    Some \<lparr>lww_value = [118, 49] @ replicate 254 0, lww_value_size = 2,
          lww_timestamp = 5, lww_node_id = 2\<rparr>)"
  using lww_set_dropped_write_ok [where value_size = 2 and ts = 5 and node = 1
          and val = "Some [118, 50]"
          and reg = "\<lparr>lww_value = [118, 49] @ replicate 254 0, lww_value_size = 2,
                      lww_timestamp = 5, lww_node_id = 2\<rparr>"]
  by simp

subsection \<open>Serialization round trip\<close>

lemma length_le_bytes [simp]: "length (le_bytes n w) = n"
  by (simp add: le_bytes_def)

lemma le_word_le_bytes:
  fixes w :: "'a::len word"
  assumes "LENGTH('a) \<le> 8 * n"
  shows "le_word (le_bytes n w) = w"
proof (rule bit_word_eqI)
  fix k
  assume k: "k < LENGTH('a)"
  have kn: "k div 8 < n" using k assms by (simp add: div_less_iff_less_mult mult.commute)
  have "bit (horner_sum uint (2 ^ LENGTH(8)) (le_bytes n w)) k \<longleftrightarrow> bit w k"
    unfolding bit_horner_sum_uint_exp_iff
    using kn by (simp add: le_bytes_def bit_ucast_iff bit_drop_bit_eq)
  then show "bit (le_word (le_bytes n w) :: 'a word) k \<longleftrightarrow> bit w k"
    using k by (simp add: le_word_def bit_word_of_int_iff)
qed

lemma length_bytes_of_u64s [simp]: "length (bytes_of_u64s xs) = 8 * length xs"
  by (induction xs) (simp_all add: bytes_of_u64s_def)

lemma bytes_of_u64s_chunk:
  "i < length xs \<Longrightarrow> take 8 (drop (8 * i) (bytes_of_u64s xs)) = le_bytes 8 (xs ! i)"
proof (induction xs arbitrary: i)
  case Nil
  then show ?case by simp
next
  case (Cons x xs)
  show ?case
  proof (cases i)
    case 0
    then show ?thesis by (simp add: bytes_of_u64s_def)
  next
    case (Suc j)
    then have "j < length xs" using Cons.prems by simp
    from Cons.IH [OF this] show ?thesis
      using Suc by (simp add: bytes_of_u64s_def)
  qed
qed

lemma length_u64s_of_bytes [simp]: "length (u64s_of_bytes bs) = length bs div 8"
  by (simp add: u64s_of_bytes_def)

lemma u64s_of_bytes_nth:
  "i < length bs div 8 \<Longrightarrow> u64s_of_bytes bs ! i = le_word (take 8 (drop (8 * i) bs))"
  by (simp add: u64s_of_bytes_def)

lemma bytes_of_u64s_append:
  "bytes_of_u64s (xs @ ys) = bytes_of_u64s xs @ bytes_of_u64s ys"
  by (simp add: bytes_of_u64s_def)

lemma take_bytes_of_u64s: "take (n * 8) (bytes_of_u64s xs) = bytes_of_u64s (take n xs)"
proof (induction xs arbitrary: n)
  case Nil
  then show ?case by (simp add: bytes_of_u64s_def)
next
  case (Cons x xs)
  show ?case
  proof (cases n)
    case 0
    then show ?thesis by (simp add: bytes_of_u64s_def)
  next
    case (Suc m)
    have "take (Suc m * 8) (bytes_of_u64s (x # xs)) = le_bytes 8 x @ take (m * 8) (bytes_of_u64s xs)"
      by (simp add: bytes_of_u64s_def)
    then show ?thesis
      using Suc Cons.IH [of m] by (simp add: bytes_of_u64s_def)
  qed
qed

lemma drop_bytes_of_u64s: "drop (n * 8) (bytes_of_u64s xs) = bytes_of_u64s (drop n xs)"
proof (induction xs arbitrary: n)
  case Nil
  then show ?case by (simp add: bytes_of_u64s_def)
next
  case (Cons x xs)
  show ?case
  proof (cases n)
    case 0
    then show ?thesis by (simp add: bytes_of_u64s_def)
  next
    case (Suc m)
    have "drop (Suc m * 8) (bytes_of_u64s (x # xs)) = drop (m * 8) (bytes_of_u64s xs)"
      by (simp add: bytes_of_u64s_def)
    then show ?thesis
      using Suc Cons.IH [of m] by simp
  qed
qed

lemma u64s_of_bytes_of_u64s: "u64s_of_bytes (bytes_of_u64s xs) = xs"
proof (rule nth_equalityI)
  show "length (u64s_of_bytes (bytes_of_u64s xs)) = length xs" by simp
next
  fix i
  assume "i < length (u64s_of_bytes (bytes_of_u64s xs))"
  then have i: "i < length xs" by simp
  then have "u64s_of_bytes (bytes_of_u64s xs) ! i = le_word (le_bytes 8 (xs ! i))"
    by (simp add: u64s_of_bytes_nth bytes_of_u64s_chunk)
  also have "\<dots> = xs ! i"
    by (rule le_word_le_bytes) simp
  finally show "u64s_of_bytes (bytes_of_u64s xs) ! i = xs ! i" .
qed

lemma length_memcpy_at:
  "off + n \<le> length buf \<Longrightarrow> n \<le> length src \<Longrightarrow> length (memcpy_at buf off src n) = length buf"
  by (simp add: memcpy_at_def)

lemma memcpy_at_read_same:
  "off + n \<le> length buf \<Longrightarrow> n \<le> length src \<Longrightarrow>
   take n (drop off (memcpy_at buf off src n)) = take n src"
  by (simp add: memcpy_at_def)

lemma memcpy_at_read_before:
  "p + m \<le> off \<Longrightarrow> off \<le> length buf \<Longrightarrow>
   take m (drop p (memcpy_at buf off src n)) = take m (drop p buf)"
proof -
  assume a: "p + m \<le> off" "off \<le> length buf"
  define rest where "rest = take n src @ drop (off + n) buf"
  have "take m (drop p (take off buf @ rest)) = take m (drop p (take off buf))"
    using a by simp
  also have "\<dots> = take m (take (off - p) (drop p buf))"
    by (simp add: drop_take)
  also have "\<dots> = take m (drop p buf)"
    using a by (simp add: min_def)
  finally show ?thesis
    by (simp add: memcpy_at_def rest_def)
qed

lemma array_wire_roundtrip:
  fixes w :: u32 and buf :: "u8 list" and xs zs :: "u64 list" and n :: nat
  assumes "4 + n * 8 \<le> length buf" and "n \<le> length xs" and "length zs = length xs"
  defines "wire \<equiv> memcpy_at (memcpy_at buf 0 (le_bytes 4 w) 4) 4 (bytes_of_u64s xs) (n * 8)"
  shows "take 4 wire = le_bytes 4 w"
    and "u64s_of_bytes (memcpy (bytes_of_u64s zs) (drop 4 wire) (n * 8)) = take n xs @ drop n zs"
proof -
  have l1: "length (memcpy_at buf 0 (le_bytes 4 w) 4) = length buf"
    using assms(1) by (simp add: length_memcpy_at)
  have "take 4 (drop 0 wire) = take 4 (drop 0 (memcpy_at buf 0 (le_bytes 4 w) 4))"
    unfolding wire_def using assms(1) l1 by (intro memcpy_at_read_before) simp_all
  also have "\<dots> = take 4 (le_bytes 4 w)"
    using assms(1) memcpy_at_read_same [of 0 4 buf "le_bytes 4 w"] by simp
  finally show "take 4 wire = le_bytes 4 w" by simp
  have "take (n * 8) (drop 4 wire) = take (n * 8) (bytes_of_u64s xs)"
    unfolding wire_def using assms(1,2) l1 by (intro memcpy_at_read_same) simp_all
  then have "memcpy (bytes_of_u64s zs) (drop 4 wire) (n * 8) =
             bytes_of_u64s (take n xs @ drop n zs)"
    by (simp add: memcpy_def take_bytes_of_u64s drop_bytes_of_u64s bytes_of_u64s_append)
  then show "u64s_of_bytes (memcpy (bytes_of_u64s zs) (drop 4 wire) (n * 8)) =
             take n xs @ drop n zs"
    by (simp add: u64s_of_bytes_of_u64s)
qed


lemma le_word_u32_header: "(le_word (le_bytes 4 (w :: u32)) :: u32) = w"
  by (rule le_word_le_bytes) simp

lemma le_word_u64_field: "(le_word (le_bytes 8 (w :: u64)) :: u64) = w"
  by (rule le_word_le_bytes) simp

lemma vclock_roundtrip:
  assumes valid: "vclock_valid x"
    and size: "cauchy_vclock_serialized_size (Some x) \<le> buffer_size"
    and buf: "buffer_size \<le> length buf"
  shows "\<exists>wire y.
           cauchy_vclock_serialize (Some x) (Some buf) buffer_size =
             (cauchy_vclock_serialized_size (Some x), Some wire) \<and>
           cauchy_vclock_serialized_size (Some x) \<noteq> 0 \<and>
           cauchy_vclock_deserialize (Some fresh) (Some wire)
             (cauchy_vclock_serialized_size (Some x)) = (CAUCHY_OK, Some y) \<and>
           cauchy_vclock_equals (Some x) (Some y) \<and>
           vc_num_nodes y = vc_num_nodes x \<and>
           (\<forall>i<unat (vc_num_nodes x). vc_entries y ! i = vc_entries x ! i)"
proof -
  define n where "n = unat (vc_num_nodes x)"
  define wire where "wire = memcpy_at (memcpy_at buf 0 (le_bytes 4 (vc_num_nodes x)) 4) 4
                              (bytes_of_u64s (vc_entries x)) (n * 8)"
  define y where "y = \<lparr>vc_entries = take n (vc_entries x) @ drop n (replicate 64 0),
                        vc_num_nodes = vc_num_nodes x\<rparr>"
  have len: "length (vc_entries x) = 64" and n64: "n \<le> 64"
    and le: "vc_num_nodes x \<le> CAUCHY_MAX_NODES"
    using valid by (simp_all add: vclock_valid_def CAUCHY_MAX_NODES_def n_def word_le_nat_alt)
  have fit: "4 + n * 8 \<le> length buf"
    using size buf by (simp add: n_def)
  have ser: "cauchy_vclock_serialize (Some x) (Some buf) buffer_size =
               (cauchy_vclock_serialized_size (Some x), Some wire)"
    using size by (simp add: wire_def n_def Let_def)
  have hdr: "take 4 wire = le_bytes 4 (vc_num_nodes x)"
    and body: "u64s_of_bytes (memcpy (bytes_of_u64s (replicate 64 0)) (drop 4 wire) (n * 8)) =
               take n (vc_entries x) @ drop n (replicate 64 0)"
    unfolding wire_def
    using array_wire_roundtrip [OF fit, of "vc_entries x" "replicate 64 0" "vc_num_nodes x"]
      len n64 by simp_all
  have des: "cauchy_vclock_deserialize (Some fresh) (Some wire)
               (cauchy_vclock_serialized_size (Some x)) = (CAUCHY_OK, Some y)"
    using le body
    by (simp add: hdr le_word_u32_header Let_def not_less y_def CAUCHY_MAX_NODES_def
        flip: n_def)
  have nth: "vc_entries y ! i = vc_entries x ! i" if "i < n" for i
    using that len n64 by (simp add: y_def nth_append)
  have "vclock_entry x i = vclock_entry y i" for i
    using nth [of i] by (simp add: vclock_entry_def y_def flip: n_def)
  then have eq: "cauchy_vclock_equals (Some x) (Some y)"
    unfolding cauchy_vclock_equals_def using vclock_compare_cases [of x y] by blast
  show ?thesis
    using ser des eq nth by (auto simp: y_def n_def)
qed

lemma gcounter_roundtrip:
  assumes valid: "gcounter_valid x"
    and size: "cauchy_gcounter_serialized_size (Some x) \<le> buffer_size"
    and buf: "buffer_size \<le> length buf"
  shows "\<exists>wire y.
           cauchy_gcounter_serialize (Some x) (Some buf) buffer_size =
             (cauchy_gcounter_serialized_size (Some x), Some wire) \<and>
           cauchy_gcounter_serialized_size (Some x) \<noteq> 0 \<and>
           cauchy_gcounter_deserialize (Some fresh) (Some wire)
             (cauchy_gcounter_serialized_size (Some x)) = (CAUCHY_OK, Some y) \<and>
           cauchy_gcounter_equals (Some x) (Some y) \<and>
           gc_num_nodes y = gc_num_nodes x \<and>
           (\<forall>i<unat (gc_num_nodes x). gc_counts y ! i = gc_counts x ! i)"
proof -
  define n where "n = unat (gc_num_nodes x)"
  define wire where "wire = memcpy_at (memcpy_at buf 0 (le_bytes 4 (gc_num_nodes x)) 4) 4
                              (bytes_of_u64s (gc_counts x)) (n * 8)"
  define y where "y = \<lparr>gc_counts = take n (gc_counts x) @ drop n (replicate 64 0),
                        gc_num_nodes = gc_num_nodes x\<rparr>"
  have len: "length (gc_counts x) = 64" and n64: "n \<le> 64"
    and le: "gc_num_nodes x \<le> CAUCHY_MAX_NODES"
    using valid by (simp_all add: gcounter_valid_def CAUCHY_MAX_NODES_def n_def word_le_nat_alt)
  have fit: "4 + n * 8 \<le> length buf"
    using size buf by (simp add: n_def)
  have ser: "cauchy_gcounter_serialize (Some x) (Some buf) buffer_size =
               (cauchy_gcounter_serialized_size (Some x), Some wire)"
    using size by (simp add: wire_def n_def Let_def)
  have hdr: "take 4 wire = le_bytes 4 (gc_num_nodes x)"
    and body: "u64s_of_bytes (memcpy (bytes_of_u64s (replicate 64 0)) (drop 4 wire) (n * 8)) =
               take n (gc_counts x) @ drop n (replicate 64 0)"
    unfolding wire_def
    using array_wire_roundtrip [OF fit, of "gc_counts x" "replicate 64 0" "gc_num_nodes x"]
      len n64 by simp_all
  have des: "cauchy_gcounter_deserialize (Some fresh) (Some wire)
               (cauchy_gcounter_serialized_size (Some x)) = (CAUCHY_OK, Some y)"
    using le body
    by (simp add: hdr le_word_u32_header Let_def not_less y_def CAUCHY_MAX_NODES_def
        flip: n_def)
  have nth: "gc_counts y ! i = gc_counts x ! i" if "i < n" for i
    using that len n64 by (simp add: y_def nth_append)
  have eq: "cauchy_gcounter_equals (Some x) (Some y)"
    using nth by (simp add: y_def list_all_iff flip: n_def)
  show ?thesis
    using ser des eq nth by (auto simp: y_def n_def)
qed


lemma lww_wire_fields:
  fixes buf v :: "u8 list" and t nd sz :: u64 and m :: nat
  assumes fit: "24 + m \<le> length buf" and v: "m \<le> length v"
  defines "b3 \<equiv> memcpy_at (memcpy_at (memcpy_at buf 0 (le_bytes 8 t) 8) 8 (le_bytes 8 nd) 8)
                   16 (le_bytes 8 sz) 8"
  defines "wire \<equiv> (if 0 < m then memcpy_at b3 24 v m else b3)"
  shows "take 8 wire = le_bytes 8 t"
    and "take 8 (drop 8 wire) = le_bytes 8 nd"
    and "take 8 (drop 16 wire) = le_bytes 8 sz"
    and "take m (drop 24 wire) = take m v"
    and "length wire = length buf"
proof -
  define b1 where "b1 = memcpy_at buf 0 (le_bytes 8 t) 8"
  define b2 where "b2 = memcpy_at b1 8 (le_bytes 8 nd) 8"
  have b3: "b3 = memcpy_at b2 16 (le_bytes 8 sz) 8"
    by (simp add: b3_def b2_def b1_def)
  have l1: "length b1 = length buf"
    unfolding b1_def using fit by (intro length_memcpy_at) simp_all
  have l2: "length b2 = length buf"
    unfolding b2_def using fit l1 by (subst length_memcpy_at) simp_all
  have l3: "length b3 = length buf"
    unfolding b3 using fit l2 by (subst length_memcpy_at) simp_all
  show lw: "length wire = length buf"
    unfolding wire_def using fit v l3 by (simp add: length_memcpy_at)
  have w3: "take k (drop p wire) = take k (drop p b3)" if "p + k \<le> 24" for p k
    unfolding wire_def using that fit l3 by (simp add: memcpy_at_read_before)
  have r1: "take 8 (drop 0 b1) = take 8 (le_bytes 8 t)"
    unfolding b1_def using fit by (intro memcpy_at_read_same) simp_all
  have r2: "take 8 (drop 8 b2) = take 8 (le_bytes 8 nd)"
    unfolding b2_def using fit l1 by (intro memcpy_at_read_same) simp_all
  have r3: "take 8 (drop 16 b3) = take 8 (le_bytes 8 sz)"
    unfolding b3 using fit l2 by (intro memcpy_at_read_same) simp_all
  have "take 8 (drop 0 wire) = take 8 (drop 0 b3)"
    by (rule w3) simp
  also have "\<dots> = take 8 (drop 0 b2)"
    unfolding b3 using fit l2 by (intro memcpy_at_read_before) simp_all
  also have "\<dots> = take 8 (drop 0 b1)"
    unfolding b2_def using fit l1 by (intro memcpy_at_read_before) simp_all
  finally show "take 8 wire = le_bytes 8 t"
    using r1 by simp
  have "take 8 (drop 8 wire) = take 8 (drop 8 b3)"
    by (rule w3) simp
  also have "\<dots> = take 8 (drop 8 b2)"
    unfolding b3 using fit l2 by (intro memcpy_at_read_before) simp_all
  finally show "take 8 (drop 8 wire) = le_bytes 8 nd"
    using r2 by simp
  have "take 8 (drop 16 wire) = take 8 (drop 16 b3)"
    by (rule w3) simp
  then show "take 8 (drop 16 wire) = le_bytes 8 sz"
    using r3 by simp
  show "take m (drop 24 wire) = take m v"
  proof (cases "0 < m")
    case True
    then show ?thesis
      unfolding wire_def using fit v l3 by (simp add: memcpy_at_read_same)
  next
    case False
    then show ?thesis by simp
  qed
qed

lemma lww_roundtrip:
  assumes valid: "lww_valid x"
    and size: "cauchy_lww_serialized_size (Some x) \<le> buffer_size"
    and buf: "buffer_size \<le> length buf"
  shows "\<exists>wire y.
           cauchy_lww_serialize (Some x) (Some buf) buffer_size =
             (cauchy_lww_serialized_size (Some x), Some wire) \<and>
           cauchy_lww_serialized_size (Some x) \<noteq> 0 \<and>
           cauchy_lww_deserialize (Some fresh) (Some wire)
             (cauchy_lww_serialized_size (Some x)) = (CAUCHY_OK, Some y) \<and>
           cauchy_lww_equals (Some x) (Some y) \<and>
           lww_timestamp y = lww_timestamp x \<and> lww_node_id y = lww_node_id x \<and>
           lww_value_size y = lww_value_size x \<and>
           take (unat (lww_value_size x)) (lww_value y) =
             take (unat (lww_value_size x)) (lww_value x)"
proof -
  define m where "m = unat (lww_value_size x)"
  define wire where "wire =
     (if 0 < m
      then memcpy_at (memcpy_at (memcpy_at (memcpy_at buf 0 (le_bytes 8 (lww_timestamp x)) 8)
                8 (le_bytes 8 (lww_node_id x)) 8) 16 (le_bytes 8 (lww_value_size x)) 8)
             24 (lww_value x) m
      else memcpy_at (memcpy_at (memcpy_at buf 0 (le_bytes 8 (lww_timestamp x)) 8)
                8 (le_bytes 8 (lww_node_id x)) 8) 16 (le_bytes 8 (lww_value_size x)) 8)"
  have len: "length (lww_value x) = 256" and m256: "m \<le> 256"
    and le: "lww_value_size x \<le> CAUCHY_LWW_MAX_VALUE_SIZE"
    using valid
    by (simp_all add: lww_valid_def CAUCHY_LWW_MAX_VALUE_SIZE_def m_def word_le_nat_alt)
  have ss: "cauchy_lww_serialized_size (Some x) = 24 + m"
    using m256 by (simp add: m_def unat_word_ariths)
  have fit: "24 + m \<le> length buf"
    using size buf by (simp only: ss)
  have pos: "0 < lww_value_size x \<longleftrightarrow> 0 < m"
    by (simp add: m_def word_less_nat_alt)
  have "cauchy_lww_serialize (Some x) (Some buf) buffer_size = (24 + m, Some wire)"
    using size unfolding ss
    by (simp add: wire_def Let_def pos ss [simplified] flip: m_def)
  then have ser: "cauchy_lww_serialize (Some x) (Some buf) buffer_size =
               (cauchy_lww_serialized_size (Some x), Some wire)"
    by (simp only: ss)
  have ml: "m \<le> length (lww_value x)"
    using len m256 by simp
  note f = lww_wire_fields [OF fit ml, of "lww_timestamp x" "lww_node_id x" "lww_value_size x",
      folded wire_def]
  define y where "y =
     (if 0 < m
      then fresh\<lparr>lww_timestamp := lww_timestamp x, lww_node_id := lww_node_id x,
                 lww_value_size := lww_value_size x,
                 lww_value := memcpy (lww_value fresh) (drop 24 wire) m\<rparr>
      else fresh\<lparr>lww_timestamp := lww_timestamp x, lww_node_id := lww_node_id x,
                 lww_value_size := lww_value_size x\<rparr>)"
  have "cauchy_lww_deserialize (Some fresh) (Some wire) (24 + m) = (CAUCHY_OK, Some y)"
    using le
    by (simp add: f(1,2,3) le_word_u64_field Let_def not_less y_def pos flip: m_def)
  then have des: "cauchy_lww_deserialize (Some fresh) (Some wire)
               (cauchy_lww_serialized_size (Some x)) = (CAUCHY_OK, Some y)"
    by (simp only: ss)
  have "length (drop 24 wire) \<ge> m"
    using fit f(5) by simp
  then have "take m (memcpy (lww_value fresh) (drop 24 wire) m) = take m (drop 24 wire)"
    by (simp add: memcpy_def)
  then have val: "take m (lww_value y) = take m (lww_value x)"
    using f(4) by (cases "0 < m") (simp_all add: y_def)
  have fields: "lww_timestamp y = lww_timestamp x" "lww_node_id y = lww_node_id x"
      "lww_value_size y = lww_value_size x"
    by (simp_all add: y_def)
  have eq: "cauchy_lww_equals (Some x) (Some y)"
    using fields val by (simp add: memcmp_eq_def flip: m_def)
  have nz: "cauchy_lww_serialized_size (Some x) \<noteq> 0"
    by (simp only: ss)
  show ?thesis
    using ser des eq fields val nz unfolding m_def by blast
qed

text \<open>
  C5.  For every valid vector clock and G-Counter (64 entries, \<open>num_nodes \<le> 64\<close>) and every
  valid LWW-Register (256 value bytes, \<open>value_size \<le> 256\<close>) \<open>x\<close>, and a buffer of at least
  \<open>serialized_size(x)\<close> bytes: \<open>serialize\<close> returns the nonzero byte count
  \<open>serialized_size(x)\<close>; \<open>deserialize\<close> of these bytes into any other instance returns
  \<open>CAUCHY_OK\<close>; and the result equals \<open>x\<close> under the equality of the type, with the same
  \<open>num_nodes\<close> and the same first \<open>num_nodes\<close> entries for clocks and counters, and the same
  timestamp, node id, value size and first \<open>value_size\<close> value bytes for registers.
\<close>

theorem serialization_roundtrip:
  "(vclock_valid vc \<and> cauchy_vclock_serialized_size (Some vc) \<le> n1 \<and> n1 \<le> length buf1 \<longrightarrow>
      (\<exists>wire y.
         cauchy_vclock_serialize (Some vc) (Some buf1) n1 =
           (cauchy_vclock_serialized_size (Some vc), Some wire) \<and>
         cauchy_vclock_serialized_size (Some vc) \<noteq> 0 \<and>
         cauchy_vclock_deserialize (Some fresh1) (Some wire)
           (cauchy_vclock_serialized_size (Some vc)) = (CAUCHY_OK, Some y) \<and>
         cauchy_vclock_equals (Some vc) (Some y) \<and>
         vc_num_nodes y = vc_num_nodes vc \<and>
         (\<forall>i<unat (vc_num_nodes vc). vc_entries y ! i = vc_entries vc ! i))) \<and>
   (gcounter_valid gc \<and> cauchy_gcounter_serialized_size (Some gc) \<le> n2 \<and> n2 \<le> length buf2 \<longrightarrow>
      (\<exists>wire y.
         cauchy_gcounter_serialize (Some gc) (Some buf2) n2 =
           (cauchy_gcounter_serialized_size (Some gc), Some wire) \<and>
         cauchy_gcounter_serialized_size (Some gc) \<noteq> 0 \<and>
         cauchy_gcounter_deserialize (Some fresh2) (Some wire)
           (cauchy_gcounter_serialized_size (Some gc)) = (CAUCHY_OK, Some y) \<and>
         cauchy_gcounter_equals (Some gc) (Some y) \<and>
         gc_num_nodes y = gc_num_nodes gc \<and>
         (\<forall>i<unat (gc_num_nodes gc). gc_counts y ! i = gc_counts gc ! i))) \<and>
   (lww_valid reg \<and> cauchy_lww_serialized_size (Some reg) \<le> n3 \<and> n3 \<le> length buf3 \<longrightarrow>
      (\<exists>wire y.
         cauchy_lww_serialize (Some reg) (Some buf3) n3 =
           (cauchy_lww_serialized_size (Some reg), Some wire) \<and>
         cauchy_lww_serialized_size (Some reg) \<noteq> 0 \<and>
         cauchy_lww_deserialize (Some fresh3) (Some wire)
           (cauchy_lww_serialized_size (Some reg)) = (CAUCHY_OK, Some y) \<and>
         cauchy_lww_equals (Some reg) (Some y) \<and>
         lww_timestamp y = lww_timestamp reg \<and> lww_node_id y = lww_node_id reg \<and>
         lww_value_size y = lww_value_size reg \<and>
         take (unat (lww_value_size reg)) (lww_value y) =
           take (unat (lww_value_size reg)) (lww_value reg)))"
  using vclock_roundtrip [of vc n1 buf1 fresh1] gcounter_roundtrip [of gc n2 buf2 fresh2]
    lww_roundtrip [of reg n3 buf3 fresh3]
  by blast

theorem serialization_roundtrip_witness:
  "(vclock_valid \<lparr>vc_entries = [3, 2, 1] @ replicate 61 0, vc_num_nodes = 3\<rparr> \<and>
    cauchy_vclock_serialized_size (Some \<lparr>vc_entries = [3, 2, 1] @ replicate 61 0, vc_num_nodes = 3\<rparr>) \<le> 28 \<and> 28 \<le> length (replicate 28 (0 :: u8))) \<and>
   (\<exists>wire y.
      cauchy_vclock_serialize (Some \<lparr>vc_entries = [3, 2, 1] @ replicate 61 0, vc_num_nodes = 3\<rparr>) (Some (replicate 28 0)) 28 =
        (cauchy_vclock_serialized_size (Some \<lparr>vc_entries = [3, 2, 1] @ replicate 61 0, vc_num_nodes = 3\<rparr>), Some wire) \<and>
      cauchy_vclock_deserialize (Some \<lparr>vc_entries = replicate 64 0, vc_num_nodes = 0\<rparr>) (Some wire)
        (cauchy_vclock_serialized_size (Some \<lparr>vc_entries = [3, 2, 1] @ replicate 61 0, vc_num_nodes = 3\<rparr>)) = (CAUCHY_OK, Some y) \<and>
      cauchy_vclock_equals (Some \<lparr>vc_entries = [3, 2, 1] @ replicate 61 0, vc_num_nodes = 3\<rparr>) (Some y)) \<and>
   (gcounter_valid \<lparr>gc_counts = [100, 200, 300] @ replicate 61 0, gc_num_nodes = 3\<rparr> \<and>
    cauchy_gcounter_serialized_size (Some \<lparr>gc_counts = [100, 200, 300] @ replicate 61 0, gc_num_nodes = 3\<rparr>) \<le> 256 \<and>
    256 \<le> length (replicate 256 (0 :: u8))) \<and>
   (\<exists>wire y.
      cauchy_gcounter_serialize (Some \<lparr>gc_counts = [100, 200, 300] @ replicate 61 0, gc_num_nodes = 3\<rparr>) (Some (replicate 256 0)) 256 =
        (cauchy_gcounter_serialized_size (Some \<lparr>gc_counts = [100, 200, 300] @ replicate 61 0, gc_num_nodes = 3\<rparr>), Some wire) \<and>
      cauchy_gcounter_deserialize (Some \<lparr>gc_counts = replicate 64 0, gc_num_nodes = 0\<rparr>) (Some wire)
        (cauchy_gcounter_serialized_size (Some \<lparr>gc_counts = [100, 200, 300] @ replicate 61 0, gc_num_nodes = 3\<rparr>)) = (CAUCHY_OK, Some y) \<and>
      cauchy_gcounter_equals (Some \<lparr>gc_counts = [100, 200, 300] @ replicate 61 0, gc_num_nodes = 3\<rparr>) (Some y)) \<and>
   (lww_valid \<lparr>lww_value = [118, 49] @ replicate 254 0, lww_value_size = 2,
            lww_timestamp = 5, lww_node_id = 2\<rparr> \<and>
    cauchy_lww_serialized_size (Some \<lparr>lww_value = [118, 49] @ replicate 254 0, lww_value_size = 2,
            lww_timestamp = 5, lww_node_id = 2\<rparr>) \<le> 26 \<and> 26 \<le> length (replicate 26 (0 :: u8))) \<and>
   (\<exists>wire y.
      cauchy_lww_serialize (Some \<lparr>lww_value = [118, 49] @ replicate 254 0, lww_value_size = 2,
            lww_timestamp = 5, lww_node_id = 2\<rparr>) (Some (replicate 26 0)) 26 =
        (cauchy_lww_serialized_size (Some \<lparr>lww_value = [118, 49] @ replicate 254 0, lww_value_size = 2,
            lww_timestamp = 5, lww_node_id = 2\<rparr>), Some wire) \<and>
      cauchy_lww_deserialize (Some lww_zero) (Some wire)
        (cauchy_lww_serialized_size (Some \<lparr>lww_value = [118, 49] @ replicate 254 0, lww_value_size = 2,
            lww_timestamp = 5, lww_node_id = 2\<rparr>)) = (CAUCHY_OK, Some y) \<and>
      cauchy_lww_equals (Some \<lparr>lww_value = [118, 49] @ replicate 254 0, lww_value_size = 2,
            lww_timestamp = 5, lww_node_id = 2\<rparr>) (Some y))"
proof -
  have h1: "vclock_valid \<lparr>vc_entries = [3, 2, 1] @ replicate 61 0, vc_num_nodes = 3\<rparr> \<and>
      cauchy_vclock_serialized_size (Some \<lparr>vc_entries = [3, 2, 1] @ replicate 61 0, vc_num_nodes = 3\<rparr>) \<le> 28 \<and> 28 \<le> length (replicate 28 (0 :: u8))"
    by (simp add: vclock_valid_def CAUCHY_MAX_NODES_def)
  have h2: "gcounter_valid \<lparr>gc_counts = [100, 200, 300] @ replicate 61 0, gc_num_nodes = 3\<rparr> \<and>
      cauchy_gcounter_serialized_size (Some \<lparr>gc_counts = [100, 200, 300] @ replicate 61 0, gc_num_nodes = 3\<rparr>) \<le> 256 \<and>
      256 \<le> length (replicate 256 (0 :: u8))"
    by (simp add: gcounter_valid_def CAUCHY_MAX_NODES_def)
  have h3: "lww_valid \<lparr>lww_value = [118, 49] @ replicate 254 0, lww_value_size = 2,
            lww_timestamp = 5, lww_node_id = 2\<rparr> \<and>
      cauchy_lww_serialized_size (Some \<lparr>lww_value = [118, 49] @ replicate 254 0, lww_value_size = 2,
            lww_timestamp = 5, lww_node_id = 2\<rparr>) \<le> 26 \<and> 26 \<le> length (replicate 26 (0 :: u8))"
    by (simp add: lww_valid_def CAUCHY_LWW_MAX_VALUE_SIZE_def)
  show ?thesis
    using h1 h2 h3
      serialization_roundtrip
        [where vc = "\<lparr>vc_entries = [3, 2, 1] @ replicate 61 0, vc_num_nodes = 3\<rparr>" and ?n1.0 = 28 and ?buf1.0 = "replicate 28 0" and ?fresh1.0 = "\<lparr>vc_entries = replicate 64 0, vc_num_nodes = 0\<rparr>"
           and gc = "\<lparr>gc_counts = [100, 200, 300] @ replicate 61 0, gc_num_nodes = 3\<rparr>" and ?n2.0 = 256 and ?buf2.0 = "replicate 256 0" and ?fresh2.0 = "\<lparr>gc_counts = replicate 64 0, gc_num_nodes = 0\<rparr>"
           and reg = "\<lparr>lww_value = [118, 49] @ replicate 254 0, lww_value_size = 2,
            lww_timestamp = 5, lww_node_id = 2\<rparr>" and ?n3.0 = 26 and ?buf3.0 = "replicate 26 0"
           and ?fresh3.0 = lww_zero]
    by blast
qed

subsection \<open>Node context: identifiers of a node id outside the clock\<close>

text \<open>
  C8 fails on the code.  A context created for node id 64 has a local clock of 64 entries,
  so \<open>cauchy_vclock_increment\<close> ignores the id and \<open>cauchy_vclock_get\<close> reads 0: two
  consecutive calls of \<open>cauchy_context_gen_uid\<close> return the same identifier \<open>(64, 0)\<close>, and
  \<open>cauchy_uid_compare\<close> of the second with the first is 0, not 1.
\<close>

theorem gen_uid_out_of_range_repeats:
  "(let c0 = cauchy_context_create True 64;
        r1 = cauchy_context_gen_uid c0;
        r2 = cauchy_context_gen_uid (snd r1)
    in c0 \<noteq> None \<and>
       fst r1 = \<lparr>uid_node_id = 64, uid_timestamp = 0\<rparr> \<and>
       fst r2 = \<lparr>uid_node_id = 64, uid_timestamp = 0\<rparr> \<and>
       cauchy_uid_compare (fst r2) (fst r1) = 0)"
  by (simp add: cauchy_context_create_def CAUCHY_MAX_NODES_def Let_def cauchy_uid_create_def
      cauchy_uid_compare_def)

subsection \<open>2P-Set: tombstones are permanent\<close>

lemma gset_iter_skip_pending:
  "gset_iter_skip set0 idx cur = (idx', cur') \<Longrightarrow>
   cur' @ gset_iter_rest set0 idx' = cur @ gset_iter_rest set0 idx \<and>
   (cur' = [] \<longrightarrow> \<not> idx' < unat (gs_num_buckets set0 - 1))"
proof (induction set0 idx cur rule: gset_iter_skip.induct)
  case (1 set0 idx cur)
  show ?case
  proof (cases "cur = [] \<and> idx < unat (gs_num_buckets set0 - 1)")
    case True
    then have "gset_iter_skip set0 (idx + 1) (gs_buckets set0 ! (idx + 1)) = (idx', cur')"
      using "1.prems" by (subst (asm) gset_iter_skip.simps) simp
    from "1.IH" [OF True this]
    have ih: "cur' @ gset_iter_rest set0 idx' =
              gs_buckets set0 ! (idx + 1) @ gset_iter_rest set0 (idx + 1)"
      and st: "cur' = [] \<longrightarrow> \<not> idx' < unat (gs_num_buckets set0 - 1)"
      by simp_all
    have "gs_buckets set0 ! (idx + 1) @ gset_iter_rest set0 (idx + 1) = gset_iter_rest set0 idx"
      using True by (simp add: gset_iter_rest_def upt_conv_Cons del: upt_Suc)
    then show ?thesis using True ih st by simp
  next
    case False
    then have "(idx', cur') = (idx, cur)"
      using "1.prems" by (subst (asm) gset_iter_skip.simps) auto
    then show ?thesis using False by auto
  qed
qed

lemma gset_iter_rest_end:
  "\<not> idx < unat (gs_num_buckets set0 - 1) \<Longrightarrow> gset_iter_rest set0 idx = []"
  by (simp add: gset_iter_rest_def)

lemma gset_iter_next_None:
  "gset_iter_settled iter \<Longrightarrow> cauchy_gset_iter_next iter = (None, iter') \<Longrightarrow>
   gset_iter_pending iter = []"
  by (auto simp: gset_iter_settled_def gset_iter_pending_def gset_iter_rest_end
      split: option.splits list.splits prod.splits)

lemma gset_iter_next_Some:
  assumes "cauchy_gset_iter_next iter = (Some (d, sz), iter')"
  shows "\<exists>elem. gset_iter_pending iter = elem # gset_iter_pending iter' \<and>
                d = ge_data elem \<and> sz = ge_size elem \<and> gset_iter_settled iter'"
proof -
  obtain set0 elem rest where s: "it_set iter = Some set0" and c: "it_current iter = elem # rest"
    using assms by (auto split: option.splits list.splits prod.splits)
  obtain idx cur where sk: "gset_iter_skip set0 (it_bucket_idx iter) rest = (idx, cur)"
    by (cases "gset_iter_skip set0 (it_bucket_idx iter) rest") auto
  have iter': "iter' = iter\<lparr>it_bucket_idx := idx, it_current := cur\<rparr>"
    and d: "d = ge_data elem" "sz = ge_size elem"
    using assms s c sk by simp_all
  from gset_iter_skip_pending [OF sk]
  have "gset_iter_pending iter' = rest @ gset_iter_rest set0 (it_bucket_idx iter)"
    and "gset_iter_settled iter'"
    using s by (simp_all add: gset_iter_pending_def gset_iter_settled_def iter')
  moreover have "gset_iter_pending iter = elem # rest @ gset_iter_rest set0 (it_bucket_idx iter)"
    using s c by (simp add: gset_iter_pending_def)
  ultimately show ?thesis using d by simp
qed

lemma twopset_count_loop_eq:
  "gset_iter_settled iter \<Longrightarrow>
   twopset_count_loop removed iter count =
     count + of_nat (length (filter (twopset_counted removed) (gset_iter_pending iter)))"
proof (induction removed iter count rule: twopset_count_loop.induct)
  case (1 removed iter count)
  obtain r iter' where nxt: "cauchy_gset_iter_next iter = (r, iter')"
    by (cases "cauchy_gset_iter_next iter") auto
  show ?case
  proof (cases r)
    case None
    then have "gset_iter_pending iter = []"
      using gset_iter_next_None [OF "1.prems"] nxt by simp
    moreover have "twopset_count_loop removed iter count = count"
      using nxt None by (subst twopset_count_loop.simps) simp
    ultimately show ?thesis by simp
  next
    case (Some p)
    obtain d sz where p: "p = (d, sz)" by (cases p) auto
    from gset_iter_next_Some [of iter d sz iter'] nxt Some p
    obtain elem where pend: "gset_iter_pending iter = elem # gset_iter_pending iter'"
      and d: "d = ge_data elem" "sz = ge_size elem" and st: "gset_iter_settled iter'"
      by auto
    define count' where "count' =
      (if \<not> cauchy_gset_contains removed (Some (take sz d)) then count + 1 else count)"
    have step: "twopset_count_loop removed iter count = twopset_count_loop removed iter' count'"
      using nxt Some p by (subst twopset_count_loop.simps) (simp add: count'_def)
    have "twopset_count_loop removed iter' count' =
          count' + of_nat (length (filter (twopset_counted removed) (gset_iter_pending iter')))"
      unfolding count'_def
      using "1.IH" [OF nxt [symmetric] Some p [symmetric] st] .
    moreover have "twopset_counted removed elem \<longleftrightarrow>
        \<not> cauchy_gset_contains removed (Some (take sz d))"
      by (simp add: twopset_counted_def d)
    ultimately show ?thesis
      unfolding step pend by (simp add: count'_def)
  qed
qed

lemma gset_iter_init_settled: "gset_iter_settled (cauchy_gset_iter_init g)"
proof (cases g)
  case None
  then show ?thesis by (simp add: gset_iter_settled_def)
next
  case (Some set0)
  obtain idx cur where sk: "gset_iter_skip set0 0 (gs_buckets set0 ! 0) = (idx, cur)"
    by (cases "gset_iter_skip set0 0 (gs_buckets set0 ! 0)") auto
  from gset_iter_skip_pending [OF sk] show ?thesis
    using Some sk by (simp add: gset_iter_settled_def)
qed

lemma gset_iter_init_pending:
  assumes "gset_wf set0"
  shows "gset_iter_pending (cauchy_gset_iter_init (Some set0)) = gset_elems set0"
proof -
  obtain idx cur where sk: "gset_iter_skip set0 0 (gs_buckets set0 ! 0) = (idx, cur)"
    by (cases "gset_iter_skip set0 0 (gs_buckets set0 ! 0)") auto
  have nz0: "gs_num_buckets set0 \<noteq> 0"
    and len: "length (gs_buckets set0) = unat (gs_num_buckets set0)"
    using assms by (simp_all add: gset_wf_def)
  have nz: "0 < unat (gs_num_buckets set0)"
    using nz0 by (simp add: unat_gt_0)
  have "unat (gs_num_buckets set0 - 1) = unat (gs_num_buckets set0) - 1"
    using nz0 by (rule unat_minus_one)
  then have n1: "Suc (unat (gs_num_buckets set0 - 1)) = unat (gs_num_buckets set0)"
    using nz by arith
  have "gset_iter_pending (cauchy_gset_iter_init (Some set0)) =
        gs_buckets set0 ! 0 @ gset_iter_rest set0 0"
    using gset_iter_skip_pending [OF sk] sk by (simp add: gset_iter_pending_def)
  also have "\<dots> = concat (map (\<lambda>j. gs_buckets set0 ! j) [0..<unat (gs_num_buckets set0)])"
    using nz unfolding gset_iter_rest_def n1 by (subst (2) upt_conv_Cons) simp_all
  also have "\<dots> = concat (gs_buckets set0)"
    using len by (simp add: map_nth flip: len)
  finally show ?thesis
    using len by (simp add: gset_elems_def)
qed

lemma gset_add_keeps:
  assumes "cauchy_gset_contains g (Some x)"
  shows "cauchy_gset_contains (snd (cauchy_gset_add mem_ok g d)) (Some x)"
proof -
  obtain set0 where g: "g = Some set0" using assms by (cases g) auto
  show ?thesis
  proof (cases d)
    case None
    then show ?thesis using assms g by simp
  next
    case (Some y)
    define iy where "iy = unat (hash_data y mod gs_num_buckets set0)"
    define ix where "ix = unat (hash_data x mod gs_num_buckets set0)"
    define new_elem where "new_elem = \<lparr>ge_data = y, ge_size = length y, ge_hash = hash_data y\<rparr>"
    have x: "x \<noteq> []" and cx: "gset_chain_contains (gs_buckets set0 ! ix) (hash_data x) x"
      using assms g by (auto simp: Let_def ix_def split: if_splits)
    have "gset_chain_contains
            ((gs_buckets set0)[iy := new_elem # gs_buckets set0 ! iy] ! ix) (hash_data x) x"
    proof (cases "iy = ix \<and> iy < length (gs_buckets set0)")
      case True
      then show ?thesis using cx by simp
    next
      case False
      then have "(gs_buckets set0)[iy := new_elem # gs_buckets set0 ! iy] ! ix =
                 gs_buckets set0 ! ix"
        by (cases "iy = ix") (simp_all add: list_update_beyond)
      then show ?thesis using cx by simp
    qed
    then show ?thesis
      using assms g Some x
      by (simp add: Let_def flip: iy_def ix_def new_elem_def)
  qed
qed

lemma gset_merge_loop_keeps:
  "cauchy_gset_contains g (Some x) \<Longrightarrow>
   cauchy_gset_contains (snd (gset_merge_loop mem_ok g elems)) (Some x)"
proof (induction elems arbitrary: g)
  case Nil
  then show ?case by simp
next
  case (Cons elem rest)
  define d where "d = Some (take (ge_size elem) (ge_data elem))"
  obtain res g' where add: "cauchy_gset_add mem_ok g d = (res, g')"
    by (cases "cauchy_gset_add mem_ok g d") auto
  have g': "cauchy_gset_contains g' (Some x)"
    using gset_add_keeps [OF Cons.prems, of mem_ok d] add by simp
  show ?case
  proof (cases "res = CAUCHY_OK")
    case True
    then show ?thesis
      using Cons.IH [OF g'] add by (simp add: d_def)
  next
    case False
    then have "gset_merge_loop mem_ok g (elem # rest) = (res, g')"
      using add by (cases res) (simp_all add: d_def)
    then show ?thesis using g' by simp
  qed
qed

lemma gset_merge_keeps:
  "cauchy_gset_contains g (Some x) \<Longrightarrow>
   cauchy_gset_contains (snd (cauchy_gset_merge mem_ok g src)) (Some x)"
proof (cases g; cases src)
  fix set0 src0
  assume "cauchy_gset_contains g (Some x)" "g = Some set0" "src = Some src0"
  then show ?thesis
    using gset_merge_loop_keeps [of "Some set0" x mem_ok "gset_elems src0"] by simp
qed simp_all

lemma twopset_ops_keep_tombstone:
  assumes "cauchy_2pset_was_removed (Some s) (Some x)"
  shows "cauchy_2pset_was_removed (snd (cauchy_2pset_add mem_ok (Some s) d)) (Some x)"
    and "cauchy_2pset_was_removed (snd (cauchy_2pset_remove mem_ok (Some s) d)) (Some x)"
    and "cauchy_2pset_was_removed (snd (cauchy_2pset_merge mem_ok (Some s) src)) (Some x)"
proof -
  have r: "cauchy_gset_contains (tp_removed s) (Some x)"
    using assms by simp
  show "cauchy_2pset_was_removed (snd (cauchy_2pset_add mem_ok (Some s) d)) (Some x)"
    using r by (simp split: prod.splits)
  show "cauchy_2pset_was_removed (snd (cauchy_2pset_remove mem_ok (Some s) d)) (Some x)"
    using r gset_add_keeps [OF r, of mem_ok d] by (auto split: prod.splits)
  show "cauchy_2pset_was_removed (snd (cauchy_2pset_merge mem_ok (Some s) src)) (Some x)"
  proof (cases src)
    case None
    then show ?thesis using r by simp
  next
    case (Some src0)
    obtain ra a' where a: "cauchy_gset_merge mem_ok (tp_added s) (tp_added src0) = (ra, a')"
      by (cases "cauchy_gset_merge mem_ok (tp_added s) (tp_added src0)") auto
    obtain rr r' where rm: "cauchy_gset_merge mem_ok (tp_removed s) (tp_removed src0) = (rr, r')"
      by (cases "cauchy_gset_merge mem_ok (tp_removed s) (tp_removed src0)") auto
    have "cauchy_gset_contains r' (Some x)"
      using gset_merge_keeps [OF r, of mem_ok "tp_removed src0"] rm by simp
    then show ?thesis
      using Some a rm r by (cases ra) simp_all
  qed
qed

lemma twopset_count_eq:
  assumes "tp_added s = Some a" and "gset_wf a"
  shows "cauchy_2pset_count (Some s) =
         of_nat (length (filter (twopset_counted (tp_removed s)) (gset_elems a)))"
  using twopset_count_loop_eq [OF gset_iter_init_settled, of "tp_removed s" "Some a" 0]
    gset_iter_init_pending [OF assms(2)] assms(1)
  by simp

lemma twopset_permanence_example:
  "(let s0 = cauchy_2pset_create True 0;
        s1 = snd (cauchy_2pset_add True s0 (Some [120]));
        s2 = snd (cauchy_2pset_remove True s1 (Some [120]));
        s3 = snd (cauchy_2pset_add True s2 (Some [120]))
    in s3 \<noteq> None \<and> cauchy_2pset_contains s1 (Some [120]) \<and>
       \<not> cauchy_2pset_contains s3 (Some [120]) \<and> cauchy_2pset_count s3 = 0)"
  by code_simp

text \<open>
  C6.  For every 2P-Set in which \<open>x\<close> is in the removed G-Set: \<open>cauchy_2pset_add(x)\<close> returns
  \<open>CAUCHY_OK\<close> and leaves the state unchanged; \<open>cauchy_2pset_contains(x)\<close> is false;
  \<open>cauchy_2pset_count\<close> is the number of elements of the (well-formed) added set that the
  removed set does not contain, and none of the elements it counts is \<open>x\<close>; and \<open>x\<close> is still
  in the removed set after any further add, remove or merge, whatever its result, so all of
  this holds at every later state.  The sequence add("x"), remove("x"), add("x") on a new
  set ends with \<open>contains("x") = false\<close> and \<open>count = 0\<close>.
\<close>

theorem twopset_tombstone_permanence:
  assumes "cauchy_2pset_was_removed (Some s) (Some x)"
  shows "cauchy_2pset_add mem_ok (Some s) (Some x) = (CAUCHY_OK, Some s) \<and>
         \<not> cauchy_2pset_contains (Some s) (Some x) \<and>
         (\<forall>a. tp_added s = Some a \<and> gset_wf a \<longrightarrow>
            cauchy_2pset_count (Some s) =
              of_nat (length (filter (twopset_counted (tp_removed s)) (gset_elems a))) \<and>
            (\<forall>e \<in> set (filter (twopset_counted (tp_removed s)) (gset_elems a)).
               take (ge_size e) (ge_data e) \<noteq> x)) \<and>
         cauchy_2pset_was_removed (snd (cauchy_2pset_add m1 (Some s) d1)) (Some x) \<and>
         cauchy_2pset_was_removed (snd (cauchy_2pset_remove m2 (Some s) d2)) (Some x) \<and>
         cauchy_2pset_was_removed (snd (cauchy_2pset_merge m3 (Some s) src)) (Some x) \<and>
         (let s0 = cauchy_2pset_create True 0;
              s1 = snd (cauchy_2pset_add True s0 (Some [120]));
              s2 = snd (cauchy_2pset_remove True s1 (Some [120]));
              s3 = snd (cauchy_2pset_add True s2 (Some [120]))
          in s3 \<noteq> None \<and> cauchy_2pset_contains s1 (Some [120]) \<and>
             \<not> cauchy_2pset_contains s3 (Some [120]) \<and> cauchy_2pset_count s3 = 0)"
proof -
  have r: "cauchy_gset_contains (tp_removed s) (Some x)"
    using assms by simp
  have a: "cauchy_2pset_add mem_ok (Some s) (Some x) = (CAUCHY_OK, Some s)"
    and c: "\<not> cauchy_2pset_contains (Some s) (Some x)"
    using r by simp_all
  have n: "take (ge_size e) (ge_data e) \<noteq> x" if "twopset_counted (tp_removed s) e" for e
    using that r by (auto simp: twopset_counted_def)
  have cnt: "\<forall>a. tp_added s = Some a \<and> gset_wf a \<longrightarrow>
            cauchy_2pset_count (Some s) =
              of_nat (length (filter (twopset_counted (tp_removed s)) (gset_elems a))) \<and>
            (\<forall>e \<in> set (filter (twopset_counted (tp_removed s)) (gset_elems a)).
               take (ge_size e) (ge_data e) \<noteq> x)"
    using twopset_count_eq [of s] n by auto
  show ?thesis
    using a c cnt twopset_ops_keep_tombstone [OF assms] twopset_permanence_example
    by blast
qed

theorem twopset_tombstone_permanence_witness:
  "cauchy_2pset_was_removed
     (Some \<lparr>tp_added = Some \<lparr>gs_buckets = [[\<lparr>ge_data = [120], ge_size = 1,
                                              ge_hash = hash_data [120]\<rparr>]],
                             gs_num_buckets = 1, gs_count = 1\<rparr>,
            tp_removed = Some \<lparr>gs_buckets = [[\<lparr>ge_data = [120], ge_size = 1,
                                                ge_hash = hash_data [120]\<rparr>]],
                               gs_num_buckets = 1, gs_count = 1\<rparr>\<rparr>)
     (Some [120]) \<and>
   cauchy_2pset_add True
     (Some \<lparr>tp_added = Some \<lparr>gs_buckets = [[\<lparr>ge_data = [120], ge_size = 1,
                                              ge_hash = hash_data [120]\<rparr>]],
                             gs_num_buckets = 1, gs_count = 1\<rparr>,
            tp_removed = Some \<lparr>gs_buckets = [[\<lparr>ge_data = [120], ge_size = 1,
                                                ge_hash = hash_data [120]\<rparr>]],
                               gs_num_buckets = 1, gs_count = 1\<rparr>\<rparr>)
     (Some [120]) =
   (CAUCHY_OK,
    Some \<lparr>tp_added = Some \<lparr>gs_buckets = [[\<lparr>ge_data = [120], ge_size = 1,
                                             ge_hash = hash_data [120]\<rparr>]],
                            gs_num_buckets = 1, gs_count = 1\<rparr>,
           tp_removed = Some \<lparr>gs_buckets = [[\<lparr>ge_data = [120], ge_size = 1,
                                               ge_hash = hash_data [120]\<rparr>]],
                              gs_num_buckets = 1, gs_count = 1\<rparr>\<rparr>)"
proof -
  have h: "cauchy_2pset_was_removed
     (Some \<lparr>tp_added = Some \<lparr>gs_buckets = [[\<lparr>ge_data = [120], ge_size = 1,
                                              ge_hash = hash_data [120]\<rparr>]],
                             gs_num_buckets = 1, gs_count = 1\<rparr>,
            tp_removed = Some \<lparr>gs_buckets = [[\<lparr>ge_data = [120], ge_size = 1,
                                                ge_hash = hash_data [120]\<rparr>]],
                               gs_num_buckets = 1, gs_count = 1\<rparr>\<rparr>)
     (Some [120])"
    by (simp add: gset_elem_matches_def memcmp_eq_def)
  show ?thesis
    using h twopset_tombstone_permanence [OF h, of True]
    by blast
qed

subsection \<open>OR-Set: the active count\<close>

text \<open>
  C7 fails on the code.  On a new set, two calls of \<open>cauchy_orset_add\<close> with the same
  payload "x" create two entries with different tags and increment \<open>active_count\<close> twice:
  \<open>cauchy_orset_count\<close> returns 2, while the set has one distinct active payload.
\<close>

theorem orset_count_counts_entries:
  "(let s0 = cauchy_orset_create True 0 1;
        s1 = snd (cauchy_orset_add True s0 (Some [120]));
        s2 = snd (cauchy_orset_add True s1 (Some [120]))
    in fst (cauchy_orset_add True s0 (Some [120])) = CAUCHY_OK \<and>
       fst (cauchy_orset_add True s1 (Some [120])) = CAUCHY_OK \<and>
       cauchy_orset_count s2 = 2 \<and>
       map_option orset_active_keys s2 = Some [[120]])"
  by code_simp

subsection \<open>OR-Set: a concurrent add wins over a remove\<close>

lemma concat_update_cons:
  assumes "i < length bs"
  shows "\<exists>pre post. concat bs = pre @ post \<and> concat (bs[i := y # bs ! i]) = pre @ y # post"
proof -
  have "bs = take i bs @ bs ! i # drop (Suc i) bs"
    using assms by (simp add: id_take_nth_drop)
  then have 1: "concat bs = concat (take i bs) @ (bs ! i @ concat (drop (Suc i) bs))"
    by (metis concat.simps(2) concat_append)
  have "bs[i := y # bs ! i] = take i bs @ (y # bs ! i) # drop (Suc i) bs"
    using assms by (simp add: upd_conv_take_nth_drop)
  then have 2: "concat (bs[i := y # bs ! i]) =
                concat (take i bs) @ y # (bs ! i @ concat (drop (Suc i) bs))"
    by simp
  show ?thesis using 1 2 by blast
qed

lemma concat_update_nth:
  assumes "i < length bs" and "p < length (bs ! i)"
  shows "\<exists>pre post. concat bs = pre @ (bs ! i ! p) # post \<and>
                     concat (bs[i := (bs ! i)[p := y]]) = pre @ y # post"
proof -
  define c where "c = bs ! i"
  have c: "c = take p c @ c ! p # drop (Suc p) c"
    using assms(2) by (simp add: id_take_nth_drop c_def)
  have c': "c[p := y] = take p c @ y # drop (Suc p) c"
    using assms(2) by (simp add: upd_conv_take_nth_drop c_def)
  have "bs = take i bs @ c # drop (Suc i) bs"
    using assms(1) by (simp add: id_take_nth_drop c_def)
  then have "concat bs = concat (take i bs) @ c @ concat (drop (Suc i) bs)"
    by (metis concat.simps(2) concat_append)
  then have 1: "concat bs = (concat (take i bs) @ take p c) @ c ! p #
                            (drop (Suc p) c @ concat (drop (Suc i) bs))"
    using c by (metis append.assoc append_Cons)
  have "bs[i := c[p := y]] = take i bs @ c[p := y] # drop (Suc i) bs"
    using assms(1) by (simp add: upd_conv_take_nth_drop)
  then have "concat (bs[i := c[p := y]]) =
             concat (take i bs) @ c[p := y] @ concat (drop (Suc i) bs)"
    by simp
  then have 2: "concat (bs[i := c[p := y]]) = (concat (take i bs) @ take p c) @ y #
                            (drop (Suc p) c @ concat (drop (Suc i) bs))"
    using c' by simp
  show ?thesis using 1 2 unfolding c_def by blast
qed

lemma orset_wf_entries: "orset_wf s \<Longrightarrow> orset_entries s = concat (os_buckets s)"
  by (simp add: orset_wf_def orset_entries_def)

lemma orset_wf_idx: "orset_wf s \<Longrightarrow> unat (h mod os_num_buckets s) < length (os_buckets s)"
proof -
  assume wf: "orset_wf s"
  then have nz: "os_num_buckets s \<noteq> 0" and len: "length (os_buckets s) = unat (os_num_buckets s)"
    by (simp_all add: orset_wf_def)
  have "0 < unat (os_num_buckets s)" using nz by (simp add: unat_gt_0)
  then have "unat h mod unat (os_num_buckets s) < unat (os_num_buckets s)"
    by simp
  then show ?thesis by (simp add: len unat_mod)
qed

lemma orset_wf_bucket:
  "orset_wf s \<Longrightarrow> i < length (os_buckets s) \<Longrightarrow> e \<in> set (os_buckets s ! i) \<Longrightarrow>
   orset_entry_ok (os_num_buckets s) i e"
  by (simp add: orset_wf_def list_all_iff)

lemma orset_wf_entry:
  assumes "orset_wf s" and "e \<in> set (orset_entries s)"
  shows "e \<in> set (os_buckets s ! unat (oe_hash e mod os_num_buckets s))"
    and "oe_hash e = hash_data (oe_data e)" and "oe_size e = length (oe_data e)"
proof -
  from assms obtain c where c: "c \<in> set (os_buckets s)" "e \<in> set c"
    by (auto simp: orset_wf_entries)
  then obtain i where i: "i < length (os_buckets s)" "c = os_buckets s ! i"
    by (auto simp: in_set_conv_nth)
  have ok: "orset_entry_ok (os_num_buckets s) i e"
    using orset_wf_bucket [OF assms(1) i(1)] c(2) i(2) by simp
  then show "e \<in> set (os_buckets s ! unat (oe_hash e mod os_num_buckets s))"
    and "oe_hash e = hash_data (oe_data e)" and "oe_size e = length (oe_data e)"
    using c(2) i(2) by (auto simp: orset_entry_ok_def)
qed

lemma orset_chain_find_Some:
  "orset_chain_find c h t = Some p \<Longrightarrow>
   p < length c \<and> oe_hash (c ! p) = h \<and> oe_tag (c ! p) = t"
proof (induction c arbitrary: p)
  case Nil
  then show ?case by simp
next
  case (Cons e c)
  then show ?case
    by (auto simp: cauchy_uid_equals_def split: if_splits)
qed

lemma orset_chain_find_None:
  "orset_chain_find c h t = None \<Longrightarrow> e \<in> set c \<Longrightarrow> \<not> (oe_hash e = h \<and> oe_tag e = t)"
  by (induction c) (auto simp: cauchy_uid_equals_def split: if_splits)

lemma find_entry_by_tag_None:
  assumes "orset_wf s" and "find_entry_by_tag s h t = None" and "e \<in> set (orset_entries s)"
  shows "\<not> (oe_hash e = h \<and> oe_tag e = t)"
proof
  assume a: "oe_hash e = h \<and> oe_tag e = t"
  have "e \<in> set (os_buckets s ! unat (h mod os_num_buckets s))"
    using orset_wf_entry(1) [OF assms(1,3)] a by simp
  moreover have "orset_chain_find (os_buckets s ! unat (h mod os_num_buckets s)) h t = None"
    using assms(2) by (simp add: find_entry_by_tag_def Let_def)
  ultimately show False
    using orset_chain_find_None a by blast
qed

lemma find_entry_by_tag_Some:
  assumes "orset_wf s" and "find_entry_by_tag s h t = Some (idx, pos)"
  shows "idx = unat (h mod os_num_buckets s) \<and> idx < length (os_buckets s) \<and>
         pos < length (os_buckets s ! idx) \<and>
         oe_hash (os_buckets s ! idx ! pos) = h \<and> oe_tag (os_buckets s ! idx ! pos) = t"
  using assms orset_wf_idx [OF assms(1), of h] orset_chain_find_Some
  by (auto simp: find_entry_by_tag_def Let_def)

lemma orset_wfI:
  assumes "os_num_buckets s \<noteq> 0" and "length (os_buckets s) = unat (os_num_buckets s)"
    and "\<And>i e. i < length (os_buckets s) \<Longrightarrow> e \<in> set (os_buckets s ! i) \<Longrightarrow>
           orset_entry_ok (os_num_buckets s) i e"
    and "distinct (map (\<lambda>entry. (oe_hash entry, oe_tag entry)) (concat (os_buckets s)))"
  shows "orset_wf s"
  using assms by (simp add: orset_wf_def list_all_iff orset_entries_def)

lemma orset_wf_distinct:
  "orset_wf s \<Longrightarrow> distinct (map (\<lambda>entry. (oe_hash entry, oe_tag entry)) (orset_entries s))"
  by (simp add: orset_wf_def)

lemma orset_mark_wf:
  fixes dst :: cauchy_orset_t and ac :: usize and idx pos :: nat
  assumes wf: "orset_wf dst" and idx: "idx < length (os_buckets dst)"
    and pos: "pos < length (os_buckets dst ! idx)"
  defines "x \<equiv> os_buckets dst ! idx ! pos"
  defines "dst' \<equiv> dst\<lparr>os_buckets :=
                        (os_buckets dst)[idx := (os_buckets dst ! idx)[pos := x\<lparr>oe_removed := True\<rparr>]],
                      os_active_count := ac\<rparr>"
  shows "orset_wf dst'"
    and "\<exists>pre post. orset_entries dst = pre @ x # post \<and>
                     orset_entries dst' = pre @ x\<lparr>oe_removed := True\<rparr> # post"
proof -
  obtain pre post where e: "concat (os_buckets dst) = pre @ x # post"
    and e': "concat (os_buckets dst') = pre @ x\<lparr>oe_removed := True\<rparr> # post"
    using concat_update_nth [OF idx pos, of "x\<lparr>oe_removed := True\<rparr>"]
    by (auto simp: dst'_def x_def)
  have nb: "os_num_buckets dst' = os_num_buckets dst"
    and len: "length (os_buckets dst') = length (os_buckets dst)"
    by (simp_all add: dst'_def)
  have xin: "x \<in> set (os_buckets dst ! idx)"
    using pos by (simp add: x_def)
  have ok: "orset_entry_ok (os_num_buckets dst') i e"
    if i: "i < length (os_buckets dst')" and m: "e \<in> set (os_buckets dst' ! i)" for i e
  proof (cases "i = idx")
    case True
    then have "e \<in> insert (x\<lparr>oe_removed := True\<rparr>) (set (os_buckets dst ! idx))"
      using m idx set_update_subset_insert [of "os_buckets dst ! idx" pos]
      by (auto simp: dst'_def)
    moreover have "orset_entry_ok (os_num_buckets dst) idx x"
      using orset_wf_bucket [OF wf idx xin] .
    then have "orset_entry_ok (os_num_buckets dst) idx (x\<lparr>oe_removed := True\<rparr>)"
      by (auto simp: orset_entry_ok_def)
    ultimately show ?thesis
      using orset_wf_bucket [OF wf idx] True nb by auto
  next
    case False
    then have "os_buckets dst' ! i = os_buckets dst ! i"
      by (simp add: dst'_def)
    then show ?thesis
      using orset_wf_bucket [OF wf, of i e] i m nb len by simp
  qed
  have "distinct (map (\<lambda>entry. (oe_hash entry, oe_tag entry)) (concat (os_buckets dst)))"
    using orset_wf_distinct [OF wf] by (simp add: orset_wf_entries [OF wf])
  then have d: "distinct (map (\<lambda>entry. (oe_hash entry, oe_tag entry)) (concat (os_buckets dst')))"
    unfolding e e' by simp
  show wf': "orset_wf dst'"
    using wf nb len ok d by (intro orset_wfI) (simp_all add: orset_wf_def)
  show "\<exists>pre post. orset_entries dst = pre @ x # post \<and>
                     orset_entries dst' = pre @ x\<lparr>oe_removed := True\<rparr> # post"
    using e e' by (auto simp: orset_wf_entries [OF wf] orset_wf_entries [OF wf'])
qed

lemma orset_insert_wf:
  fixes dst :: cauchy_orset_t and ec ac :: usize and e :: cauchy_orset_entry_t
  assumes wf: "orset_wf dst"
    and cons: "oe_hash e = hash_data (oe_data e)" "oe_size e = length (oe_data e)"
    and fresh: "\<forall>x \<in> set (orset_entries dst). \<not> (oe_hash x = oe_hash e \<and> oe_tag x = oe_tag e)"
  defines "idx \<equiv> unat (oe_hash e mod os_num_buckets dst)"
  defines "dst' \<equiv> dst\<lparr>os_buckets := (os_buckets dst)[idx := e # os_buckets dst ! idx],
                      os_entry_count := ec, os_active_count := ac\<rparr>"
  shows "orset_wf dst'"
    and "\<exists>pre post. orset_entries dst = pre @ post \<and> orset_entries dst' = pre @ e # post"
proof -
  have idx: "idx < length (os_buckets dst)"
    unfolding idx_def by (rule orset_wf_idx [OF wf])
  obtain pre post where e: "concat (os_buckets dst) = pre @ post"
    and e': "concat (os_buckets dst') = pre @ e # post"
    using concat_update_cons [OF idx, of e] by (auto simp: dst'_def)
  have nb: "os_num_buckets dst' = os_num_buckets dst"
    and len: "length (os_buckets dst') = length (os_buckets dst)"
    by (simp_all add: dst'_def)
  have ok: "orset_entry_ok (os_num_buckets dst') i y"
    if i: "i < length (os_buckets dst')" and m: "y \<in> set (os_buckets dst' ! i)" for i y
  proof (cases "i = idx")
    case True
    then have "y = e \<or> y \<in> set (os_buckets dst ! idx)"
      using m idx by (auto simp: dst'_def)
    moreover have "orset_entry_ok (os_num_buckets dst) idx e"
      using cons by (simp add: orset_entry_ok_def idx_def)
    ultimately show ?thesis
      using orset_wf_bucket [OF wf idx] True nb by auto
  next
    case False
    then have "os_buckets dst' ! i = os_buckets dst ! i"
      by (simp add: dst'_def)
    then show ?thesis
      using orset_wf_bucket [OF wf, of i y] i m nb len by simp
  qed
  have "distinct (map (\<lambda>entry. (oe_hash entry, oe_tag entry)) (concat (os_buckets dst)))"
    using orset_wf_distinct [OF wf] by (simp add: orset_wf_entries [OF wf])
  moreover have "(oe_hash e, oe_tag e) \<notin>
                 set (map (\<lambda>entry. (oe_hash entry, oe_tag entry)) (concat (os_buckets dst)))"
  proof
    assume "(oe_hash e, oe_tag e) \<in>
            set (map (\<lambda>entry. (oe_hash entry, oe_tag entry)) (concat (os_buckets dst)))"
    then have "(oe_hash e, oe_tag e) \<in>
               (\<lambda>entry. (oe_hash entry, oe_tag entry)) ` set (concat (os_buckets dst))"
      by simp
    then obtain y where y: "(oe_hash e, oe_tag e) = (oe_hash y, oe_tag y)"
        "y \<in> set (concat (os_buckets dst))"
      by (rule imageE)
    then have "y \<in> set (orset_entries dst)" "oe_hash y = oe_hash e" "oe_tag y = oe_tag e"
      by (simp_all add: orset_wf_entries [OF wf])
    with fresh show False
      by blast
  qed
  ultimately have d: "distinct (map (\<lambda>entry. (oe_hash entry, oe_tag entry))
                                 (concat (os_buckets dst')))"
    unfolding e e' by auto
  show wf': "orset_wf dst'"
    using wf nb len ok d by (intro orset_wfI) (simp_all add: orset_wf_def)
  show "\<exists>pre post. orset_entries dst = pre @ post \<and> orset_entries dst' = pre @ e # post"
    using e e' by (auto simp: orset_wf_entries [OF wf] orset_wf_entries [OF wf'])
qed

lemma orset_merge_entry_cases:
  assumes wf: "orset_wf dst"
    and cons: "oe_hash e = hash_data (oe_data e)" "oe_size e = length (oe_data e)"
  shows "\<exists>dst'. orset_merge_entry True dst e = (CAUCHY_OK, dst') \<and> orset_wf dst' \<and>
           ((\<exists>pre x post. orset_entries dst = pre @ x # post \<and>
                orset_entries dst' = pre @ x\<lparr>oe_removed := True\<rparr> # post \<and>
                oe_hash x = oe_hash e \<and> oe_tag x = oe_tag e \<and> oe_removed e \<and> \<not> oe_removed x) \<or>
            (dst' = dst \<and>
             (\<exists>x \<in> set (orset_entries dst). oe_hash x = oe_hash e \<and> oe_tag x = oe_tag e \<and>
                (oe_removed e \<longrightarrow> oe_removed x))) \<or>
            ((\<exists>pre post. orset_entries dst = pre @ post \<and> orset_entries dst' = pre @ e # post) \<and>
             (\<forall>x \<in> set (orset_entries dst). \<not> (oe_hash x = oe_hash e \<and> oe_tag x = oe_tag e))))"
proof (cases "find_entry_by_tag dst (oe_hash e) (oe_tag e)")
  case None
  have fresh: "\<forall>x \<in> set (orset_entries dst). \<not> (oe_hash x = oe_hash e \<and> oe_tag x = oe_tag e)"
    using find_entry_by_tag_None [OF wf None] by blast
  have copy: "\<lparr>oe_data = take (oe_size e) (oe_data e), oe_size = oe_size e, oe_hash = oe_hash e,
               oe_tag = oe_tag e, oe_removed = oe_removed e\<rparr> = e"
    using cons(2) by simp
  define dst' where "dst' = dst\<lparr>os_buckets :=
        (os_buckets dst)[unat (oe_hash e mod os_num_buckets dst) :=
           e # os_buckets dst ! unat (oe_hash e mod os_num_buckets dst)],
      os_entry_count := os_entry_count dst + 1,
      os_active_count := (if \<not> oe_removed e then os_active_count dst + 1
                          else os_active_count dst)\<rparr>"
  have m: "orset_merge_entry True dst e = (CAUCHY_OK, dst')"
    using None by (simp add: orset_merge_entry_def Let_def copy dst'_def)
  note ins = orset_insert_wf [OF wf cons fresh, where ec = "os_entry_count dst + 1"
      and ac = "if \<not> oe_removed e then os_active_count dst + 1 else os_active_count dst",
      folded dst'_def]
  have "(\<exists>pre post. orset_entries dst = pre @ post \<and> orset_entries dst' = pre @ e # post) \<and>
        (\<forall>x \<in> set (orset_entries dst). \<not> (oe_hash x = oe_hash e \<and> oe_tag x = oe_tag e))"
    using ins(2) fresh by (rule conjI)
  then show ?thesis
    using m ins(1) by (intro exI [of _ dst']) simp
next
  case (Some ip)
  obtain idx pos where ip: "ip = (idx, pos)" by (cases ip) auto
  define x where "x = os_buckets dst ! idx ! pos"
  have f: "idx < length (os_buckets dst)" "pos < length (os_buckets dst ! idx)"
      "oe_hash x = oe_hash e" "oe_tag x = oe_tag e"
    using find_entry_by_tag_Some [OF wf Some [unfolded ip]] by (auto simp: x_def)
  have "os_buckets dst ! idx \<in> set (os_buckets dst)"
    using f(1) by (rule nth_mem)
  moreover have "x \<in> set (os_buckets dst ! idx)"
    unfolding x_def using f(2) by (rule nth_mem)
  ultimately have "\<exists>c \<in> set (os_buckets dst). x \<in> set c"
    by blast
  then have xin: "x \<in> set (orset_entries dst)"
    by (simp add: orset_wf_entries [OF wf])
  show ?thesis
  proof (cases "oe_removed e \<and> \<not> oe_removed x")
    case True
    define dst' where "dst' = dst\<lparr>os_buckets :=
        (os_buckets dst)[idx := (os_buckets dst ! idx)[pos := x\<lparr>oe_removed := True\<rparr>]],
      os_active_count := os_active_count dst - 1\<rparr>"
    have m: "orset_merge_entry True dst e = (CAUCHY_OK, dst')"
      using Some ip True by (simp add: orset_merge_entry_def Let_def dst'_def x_def)
    note mk = orset_mark_wf [OF wf f(1,2), where ac = "os_active_count dst - 1",
        folded x_def, folded dst'_def]
    from mk(2) obtain pre post where pp: "orset_entries dst = pre @ x # post"
        "orset_entries dst' = pre @ x\<lparr>oe_removed := True\<rparr> # post"
      by blast
    have "\<exists>pre x post. orset_entries dst = pre @ x # post \<and>
                orset_entries dst' = pre @ x\<lparr>oe_removed := True\<rparr> # post \<and>
                oe_hash x = oe_hash e \<and> oe_tag x = oe_tag e \<and> oe_removed e \<and> \<not> oe_removed x"
      using pp f(3,4) True by blast
    then show ?thesis
      using m mk(1) by (intro exI [of _ dst']) simp
  next
    case False
    have m: "orset_merge_entry True dst e = (CAUCHY_OK, dst)"
      using Some ip False by (auto simp: orset_merge_entry_def Let_def x_def)
    have "dst = dst \<and>
          (\<exists>x \<in> set (orset_entries dst). oe_hash x = oe_hash e \<and> oe_tag x = oe_tag e \<and>
             (oe_removed e \<longrightarrow> oe_removed x))"
      using xin f(3,4) False by blast
    then show ?thesis
      using m wf by (intro exI [of _ dst]) simp
  qed
qed

lemma orset_wf_pair_unique:
  assumes "orset_wf s" and "x \<in> set (orset_entries s)" and "y \<in> set (orset_entries s)"
    and "oe_hash x = oe_hash y" and "oe_tag x = oe_tag y"
  shows "x = y"
proof -
  have "inj_on (\<lambda>entry. (oe_hash entry, oe_tag entry)) (set (orset_entries s))"
    using orset_wf_distinct [OF assms(1)] by (simp add: distinct_map)
  then show ?thesis
    using assms(2-5) by (auto dest: inj_onD)
qed

lemma orset_wf_entries_distinct: "orset_wf s \<Longrightarrow> distinct (orset_entries s)"
  using orset_wf_distinct [of s] by (simp add: distinct_map)

lemma image_ident: "\<forall>y \<in> A. f y = y \<Longrightarrow> f ` A = A"
  by force

lemma orset_key_removed [simp]: "orset_key (x\<lparr>oe_removed := b\<rparr>) = orset_key x"
  by (simp add: orset_key_def)

lemma orset_tombstone_mark: "oe_removed x \<Longrightarrow> x\<lparr>oe_removed := True\<rparr> = x"
  by simp

lemma orset_wf_key_unique:
  assumes "orset_wf s" and "x \<in> set (orset_entries s)" and "y \<in> set (orset_entries s)"
    and "orset_key x = orset_key y"
  shows "x = y"
  using orset_wf_pair_unique [OF assms(1-3)] assms(4) by (simp add: orset_key_def)

lemma orset_wf_keys_distinct: "orset_wf s \<Longrightarrow> distinct (map orset_key (orset_entries s))"
  using orset_wf_distinct [of s] unfolding orset_key_def .

lemma orset_merge_entry_set:
  assumes wf: "orset_wf dst"
    and cons: "oe_hash e = hash_data (oe_data e)" "oe_size e = length (oe_data e)"
  shows "\<exists>dst'. orset_merge_entry True dst e = (CAUCHY_OK, dst') \<and> orset_wf dst' \<and>
           set (orset_entries dst') = orset_merge_set e (set (orset_entries dst))"
proof -
  from orset_merge_entry_cases [OF wf cons]
  obtain dst' where m: "orset_merge_entry True dst e = (CAUCHY_OK, dst')"
    and wf': "orset_wf dst'"
    and cases: "(\<exists>pre x post. orset_entries dst = pre @ x # post \<and>
                orset_entries dst' = pre @ x\<lparr>oe_removed := True\<rparr> # post \<and>
                oe_hash x = oe_hash e \<and> oe_tag x = oe_tag e \<and> oe_removed e \<and> \<not> oe_removed x) \<or>
            (dst' = dst \<and>
             (\<exists>x \<in> set (orset_entries dst). oe_hash x = oe_hash e \<and> oe_tag x = oe_tag e \<and>
                (oe_removed e \<longrightarrow> oe_removed x))) \<or>
            ((\<exists>pre post. orset_entries dst = pre @ post \<and> orset_entries dst' = pre @ e # post) \<and>
             (\<forall>x \<in> set (orset_entries dst). \<not> (oe_hash x = oe_hash e \<and> oe_tag x = oe_tag e)))"
    by blast
  define S where "S = set (orset_entries dst)"
  define f where "f = (\<lambda>x. if orset_key x = orset_key e \<and> oe_removed e
                            then x\<lparr>oe_removed := True\<rparr> else x)"
  have ms: "orset_merge_set e S = f ` S \<union> (if orset_key e \<in> orset_key ` S then {} else {e})"
    by (simp add: orset_merge_set_def f_def)
  have uniq: "x = y" if "x \<in> S" "y \<in> S" "orset_key x = orset_key y" for x y
    using orset_wf_key_unique [OF wf] that unfolding S_def by blast
  have "set (orset_entries dst') = orset_merge_set e S"
    using cases
  proof (elim disjE exE bexE conjE)
    fix pre x post
    assume en: "orset_entries dst = pre @ x # post"
      and en': "orset_entries dst' = pre @ x\<lparr>oe_removed := True\<rparr> # post"
      and hx: "oe_hash x = oe_hash e" and tx: "oe_tag x = oe_tag e"
      and re: "oe_removed e" and rx: "\<not> oe_removed x"
    have kx: "orset_key x = orset_key e"
      using hx tx by (simp add: orset_key_def)
    have xS: "x \<in> S" and sub: "set pre \<subseteq> S" "set post \<subseteq> S"
      using en by (auto simp: S_def)
    have d: "distinct (pre @ x # post)"
      using orset_wf_entries_distinct [OF wf] en by simp
    have other: "f y = y" if yin: "y \<in> set pre \<union> set post" for y
    proof -
      have yS: "y \<in> S" using yin sub by blast
      have ne: "y \<noteq> x" using yin d by auto
      have "orset_key y \<noteq> orset_key e"
      proof
        assume "orset_key y = orset_key e"
        then have "orset_key y = orset_key x" using kx by simp
        from uniq [OF yS xS this] ne show False by simp
      qed
      then show ?thesis by (simp add: f_def)
    qed
    have fx: "f x = x\<lparr>oe_removed := True\<rparr>"
      using kx re by (simp add: f_def)
    have "f ` S = f ` set pre \<union> {f x} \<union> f ` set post"
      using en by (auto simp: S_def)
    also have "f ` set pre = set pre"
      using other by (intro image_ident) simp
    also have "f ` set post = set post"
      using other by (intro image_ident) simp
    finally have fS: "f ` S = set pre \<union> {x\<lparr>oe_removed := True\<rparr>} \<union> set post"
      using fx by simp
    have "orset_key x \<in> orset_key ` S"
      using xS by (rule imageI)
    then have kin: "orset_key e \<in> orset_key ` S"
      using kx by simp
    have "orset_merge_set e S = f ` S"
      unfolding ms using kin by simp
    then show ?thesis
      unfolding fS en' by auto
  next
    fix x
    assume same: "dst' = dst" and xin: "x \<in> set (orset_entries dst)"
      and hx: "oe_hash x = oe_hash e" and tx: "oe_tag x = oe_tag e"
      and rr: "oe_removed e \<longrightarrow> oe_removed x"
    have kx: "orset_key x = orset_key e"
      using hx tx by (simp add: orset_key_def)
    have xS: "x \<in> S" using xin by (simp add: S_def)
    have "f y = y" if "y \<in> S" for y
    proof (cases "orset_key y = orset_key e \<and> oe_removed e")
      case True
      then have "y = x" using uniq [OF that xS] kx by simp
      then have "oe_removed y" using True rr by simp
      then show ?thesis by (simp add: f_def)
    next
      case False
      then show ?thesis by (auto simp: f_def)
    qed
    then have fS: "f ` S = S" by (intro image_ident) simp
    have "orset_key x \<in> orset_key ` S"
      using xS by (rule imageI)
    then have kin: "orset_key e \<in> orset_key ` S"
      using kx by simp
    show ?thesis
      unfolding ms same fS using kin by (simp add: S_def)
  next
    fix pre post
    assume en: "orset_entries dst = pre @ post" and en': "orset_entries dst' = pre @ e # post"
      and fresh: "\<forall>x \<in> set (orset_entries dst). \<not> (oe_hash x = oe_hash e \<and> oe_tag x = oe_tag e)"
    have nk: "orset_key y \<noteq> orset_key e" if "y \<in> S" for y
      using fresh that by (auto simp: S_def orset_key_def)
    then have "f y = y" if "y \<in> S" for y
      using that by (simp add: f_def)
    then have fS: "f ` S = S" by (intro image_ident) simp
    have kout: "orset_key e \<notin> orset_key ` S"
      using nk by force
    have "set (orset_entries dst') = insert e S"
      using en en' by (auto simp: S_def)
    then show ?thesis
      unfolding ms fS using kout by simp
  qed
  then show ?thesis
    using m wf' unfolding S_def by blast
qed

lemma orset_merge_loop_set:
  assumes "orset_wf dst"
    and "\<forall>e \<in> set es. oe_hash e = hash_data (oe_data e) \<and> oe_size e = length (oe_data e)"
  shows "\<exists>dst'. orset_merge_loop True dst es = (CAUCHY_OK, dst') \<and> orset_wf dst' \<and>
           set (orset_entries dst') = fold orset_merge_set es (set (orset_entries dst))"
  using assms
proof (induction es arbitrary: dst)
  case Nil
  then show ?case by simp
next
  case (Cons e es)
  have ce: "oe_hash e = hash_data (oe_data e)" "oe_size e = length (oe_data e)"
    using Cons.prems(2) by simp_all
  from orset_merge_entry_set [OF Cons.prems(1) ce]
  obtain dst1 where m: "orset_merge_entry True dst e = (CAUCHY_OK, dst1)"
    and wf1: "orset_wf dst1"
    and s1: "set (orset_entries dst1) = orset_merge_set e (set (orset_entries dst))"
    by blast
  have rest: "\<forall>e \<in> set es. oe_hash e = hash_data (oe_data e) \<and> oe_size e = length (oe_data e)"
    using Cons.prems(2) by simp
  from Cons.IH [OF wf1 rest]
  obtain dst' where l: "orset_merge_loop True dst1 es = (CAUCHY_OK, dst')"
    and wf': "orset_wf dst'"
    and s': "set (orset_entries dst') = fold orset_merge_set es (set (orset_entries dst1))"
    by blast
  have "orset_merge_loop True dst (e # es) = (CAUCHY_OK, dst')"
    using m l by simp
  moreover have "set (orset_entries dst') =
                 fold orset_merge_set (e # es) (set (orset_entries dst))"
    using s' s1 by simp
  ultimately show ?case
    using wf' by blast
qed

lemma orset_merge_set_keys:
  "orset_key ` orset_merge_set e S = insert (orset_key e) (orset_key ` S)"
proof -
  define f where "f = (\<lambda>x. if orset_key x = orset_key e \<and> oe_removed e
                            then x\<lparr>oe_removed := True\<rparr> else x)"
  have "orset_key (f x) = orset_key x" for x
    by (simp add: f_def)
  then have "orset_key ` f ` S = orset_key ` S"
    by (simp add: image_image)
  moreover have "orset_merge_set e S =
                 f ` S \<union> (if orset_key e \<in> orset_key ` S then {} else {e})"
    by (simp add: orset_merge_set_def f_def)
  ultimately show ?thesis
    by (auto simp: image_Un)
qed

lemma orset_merge_set_mem:
  "x \<in> S \<Longrightarrow>
   (if orset_key x = orset_key e \<and> oe_removed e then x\<lparr>oe_removed := True\<rparr> else x)
     \<in> orset_merge_set e S"
  unfolding orset_merge_set_def by (rule UnI1) (rule imageI)

lemma orset_merge_fold_keeps:
  assumes "x \<in> S" and "\<forall>e \<in> set es. orset_key e = orset_key x \<longrightarrow> \<not> oe_removed e"
  shows "x \<in> fold orset_merge_set es S"
  using assms
proof (induction es arbitrary: S)
  case Nil
  then show ?case by simp
next
  case (Cons a es)
  have n: "\<not> (orset_key x = orset_key a \<and> oe_removed a)"
    using Cons.prems(2) by auto
  have "x \<in> orset_merge_set a S"
    using orset_merge_set_mem [OF Cons.prems(1), of a] by (simp only: n if_False)
  moreover have "\<forall>e \<in> set es. orset_key e = orset_key x \<longrightarrow> \<not> oe_removed e"
    using Cons.prems(2) by simp
  ultimately show ?case
    using Cons.IH by simp
qed

lemma orset_merge_fold_tombstone:
  assumes "x \<in> S" and "oe_removed x"
  shows "x \<in> fold orset_merge_set es S"
  using assms
proof (induction es arbitrary: S)
  case Nil
  then show ?case by simp
next
  case (Cons a es)
  have i: "(if orset_key x = orset_key a \<and> oe_removed a then x\<lparr>oe_removed := True\<rparr> else x) = x"
    using Cons.prems(2) by simp
  have "x \<in> orset_merge_set a S"
    using orset_merge_set_mem [OF Cons.prems(1), of a] by (simp only: i)
  then show ?case
    using Cons.IH Cons.prems(2) by simp
qed

lemma orset_merge_fold_marks:
  assumes "x \<in> S" and "e \<in> set es" and "orset_key e = orset_key x" and "oe_removed e"
  shows "x\<lparr>oe_removed := True\<rparr> \<in> fold orset_merge_set es S"
  using assms
proof (induction es arbitrary: S x)
  case Nil
  then show ?case by simp
next
  case (Cons a es)
  define x1 where "x1 = (if orset_key x = orset_key a \<and> oe_removed a
                          then x\<lparr>oe_removed := True\<rparr> else x)"
  have x1: "x1 \<in> orset_merge_set a S"
    unfolding x1_def using Cons.prems(1) by (rule orset_merge_set_mem)
  have k1: "orset_key x1 = orset_key x" and m1: "x1\<lparr>oe_removed := True\<rparr> = x\<lparr>oe_removed := True\<rparr>"
    by (simp_all add: x1_def)
  show ?case
  proof (cases "e = a")
    case True
    then have "x1 = x\<lparr>oe_removed := True\<rparr>"
      using Cons.prems(3,4) by (simp add: x1_def)
    then have "x\<lparr>oe_removed := True\<rparr> \<in> orset_merge_set a S" "oe_removed (x\<lparr>oe_removed := True\<rparr>)"
      using x1 by simp_all
    then show ?thesis
      using orset_merge_fold_tombstone by simp
  next
    case False
    then have "e \<in> set es" using Cons.prems(2) by simp
    from Cons.IH [OF x1 this] Cons.prems(3,4) k1
    have "x1\<lparr>oe_removed := True\<rparr> \<in> fold orset_merge_set es (orset_merge_set a S)"
      by simp
    then show ?thesis
      using m1 by simp
  qed
qed

lemma orset_merge_fold_inserts:
  assumes "e \<in> set es" and "distinct (map orset_key es)" and "orset_key e \<notin> orset_key ` S"
  shows "e \<in> fold orset_merge_set es S"
  using assms
proof (induction es arbitrary: S)
  case Nil
  then show ?case by simp
next
  case (Cons a es)
  show ?case
  proof (cases "e = a")
    case True
    then have "e \<in> orset_merge_set a S"
      using Cons.prems(3) by (simp add: orset_merge_set_def)
    moreover have "\<forall>y \<in> set es. orset_key y = orset_key e \<longrightarrow> \<not> oe_removed y"
      using Cons.prems(2) True by (auto simp: image_iff)
    ultimately show ?thesis
      using orset_merge_fold_keeps by simp
  next
    case False
    then have "e \<in> set es" using Cons.prems(1) by simp
    moreover have "distinct (map orset_key es)" using Cons.prems(2) by simp
    moreover have "orset_key e \<noteq> orset_key a"
      using Cons.prems(2) \<open>e \<in> set es\<close> by (auto simp: image_iff)
    then have "orset_key e \<notin> orset_key ` orset_merge_set a S"
      using Cons.prems(3) by (simp add: orset_merge_set_keys)
    ultimately show ?thesis
      using Cons.IH by simp
  qed
qed

lemma orset_merge_fold_active:
  assumes "y \<in> fold orset_merge_set es S" and "\<not> oe_removed y"
  shows "y \<in> S \<or> (y \<in> set es \<and> orset_key y \<notin> orset_key ` S)"
  using assms
proof (induction es arbitrary: S)
  case Nil
  then show ?case by simp
next
  case (Cons a es)
  from Cons.IH [of "orset_merge_set a S"] Cons.prems
  have "y \<in> orset_merge_set a S \<or>
        (y \<in> set es \<and> orset_key y \<notin> orset_key ` orset_merge_set a S)"
    by simp
  then show ?case
  proof
    assume "y \<in> orset_merge_set a S"
    then show ?thesis
      using Cons.prems(2) by (auto simp: orset_merge_set_def split: if_splits)
  next
    assume "y \<in> set es \<and> orset_key y \<notin> orset_key ` orset_merge_set a S"
    then show ?thesis
      by (simp add: orset_merge_set_keys)
  qed
qed

lemma orset_mark_fields:
  "oe_hash (orset_mark h d e) = oe_hash e" "oe_tag (orset_mark h d e) = oe_tag e"
  "oe_data (orset_mark h d e) = oe_data e" "oe_size (orset_mark h d e) = oe_size e"
  by (simp_all add: orset_mark_def)

lemma orset_remove_chain_eq:
  "fst (orset_remove_chain c h d active found) = map (orset_mark h d) c \<and>
   (snd (snd (orset_remove_chain c h d active found)) \<longleftrightarrow>
      found \<or> (\<exists>e \<in> set c. orset_entry_matches e h d))"
proof (induction c arbitrary: active found)
  case Nil
  then show ?case by simp
next
  case (Cons e c)
  show ?case
  proof (cases "orset_entry_matches e h d")
    case True
    obtain c' a' f' where r: "orset_remove_chain c h d (active - 1) True = (c', a', f')"
      by (cases "orset_remove_chain c h d (active - 1) True") auto
    then show ?thesis
      using Cons.IH [of "active - 1" True] True by (simp add: orset_mark_def)
  next
    case False
    obtain c' a' f' where r: "orset_remove_chain c h d active found = (c', a', f')"
      by (cases "orset_remove_chain c h d active found") auto
    then show ?thesis
      using Cons.IH [of active found] False by (simp add: orset_mark_def)
  qed
qed

lemma orset_same_table:
  assumes "os_buckets a = os_buckets b" and "os_num_buckets a = os_num_buckets b"
  shows "orset_wf a = orset_wf b" and "orset_entries a = orset_entries b"
  using assms by (simp_all add: orset_wf_def orset_entries_def)

lemma orset_remove_effect:
  assumes wf: "orset_wf s" and k: "k \<noteq> []"
    and ex: "\<exists>e \<in> set (orset_entries s). orset_entry_matches e (hash_data k) k"
  shows "\<exists>s'. cauchy_orset_remove (Some s) (Some k) = (CAUCHY_OK, Some s') \<and> orset_wf s' \<and>
              orset_entries s' = map (orset_mark (hash_data k) k) (orset_entries s)"
proof -
  define h where "h = hash_data k"
  define idx where "idx = unat (h mod os_num_buckets s)"
  define mk where "mk = orset_mark h k"
  obtain c' a' f' where r: "orset_remove_chain (os_buckets s ! idx) h k (os_active_count s) False =
                            (c', a', f')"
    by (cases "orset_remove_chain (os_buckets s ! idx) h k (os_active_count s) False") auto
  have c': "c' = map mk (os_buckets s ! idx)"
    and f': "f' \<longleftrightarrow> (\<exists>e \<in> set (os_buckets s ! idx). orset_entry_matches e h k)"
    using orset_remove_chain_eq [of "os_buckets s ! idx" h k "os_active_count s" False] r
    by (simp_all add: mk_def)
  define s' where "s' = s\<lparr>os_buckets := (os_buckets s)[idx := c'], os_active_count := a'\<rparr>"
  have idx: "idx < length (os_buckets s)"
    unfolding idx_def by (rule orset_wf_idx [OF wf])
  obtain e where e: "e \<in> set (orset_entries s)" "orset_entry_matches e h k"
    using ex unfolding h_def by blast
  have "oe_hash e = h" using e(2) by (simp add: orset_entry_matches_def)
  then have "e \<in> set (os_buckets s ! idx)"
    using orset_wf_entry(1) [OF wf e(1)] by (simp add: idx_def)
  then have found: "f'" using f' e(2) by blast
  have rm: "cauchy_orset_remove (Some s) (Some k) = (CAUCHY_OK, Some s')"
    using k r found by (simp add: Let_def s'_def flip: h_def idx_def)
  have other: "mk y = y" if "j < length (os_buckets s)" "j \<noteq> idx" "y \<in> set (os_buckets s ! j)" for j y
  proof -
    have "unat (oe_hash y mod os_num_buckets s) = j"
      using orset_wf_bucket [OF wf that(1,3)] by (auto simp: orset_entry_ok_def)
    then have "oe_hash y \<noteq> h" using that(2) by (auto simp: idx_def)
    then show ?thesis by (simp add: mk_def orset_mark_def orset_entry_matches_def)
  qed
  have tab: "(os_buckets s)[idx := c'] = map (map mk) (os_buckets s)"
  proof (rule nth_equalityI)
    show "length ((os_buckets s)[idx := c']) = length (map (map mk) (os_buckets s))" by simp
  next
    fix j
    assume "j < length ((os_buckets s)[idx := c'])"
    then have j: "j < length (os_buckets s)" by simp
    show "(os_buckets s)[idx := c'] ! j = map (map mk) (os_buckets s) ! j"
    proof (cases "j = idx")
      case True
      then show ?thesis using j c' by simp
    next
      case False
      have "map mk (os_buckets s ! j) = os_buckets s ! j"
        using other [OF j False] by (simp add: map_idI)
      then show ?thesis using j False by simp
    qed
  qed
  have b': "os_buckets s' = map (map mk) (os_buckets s)"
    and nb': "os_num_buckets s' = os_num_buckets s"
    using tab by (simp_all add: s'_def)
  have cat: "concat (os_buckets s') = map mk (concat (os_buckets s))"
    by (simp add: b' map_concat)
  have ok: "orset_entry_ok (os_num_buckets s') i y"
    if i1: "i < length (os_buckets s')" and y1: "y \<in> set (os_buckets s' ! i)" for i y
  proof -
    have i: "i < length (os_buckets s)" using i1 by (simp add: b')
    then obtain z where z: "z \<in> set (os_buckets s ! i)" "y = mk z"
      using y1 by (auto simp: b')
    have "orset_entry_ok (os_num_buckets s) i z"
      using orset_wf_bucket [OF wf i z(1)] .
    then have "orset_entry_ok (os_num_buckets s) i (orset_mark h k z)"
      by (auto simp: orset_entry_ok_def orset_mark_def)
    then show ?thesis
      by (simp add: z(2) mk_def nb')
  qed
  have comp: "(\<lambda>entry. (oe_hash entry, oe_tag entry)) \<circ> mk =
        (\<lambda>entry. (oe_hash entry, oe_tag entry))"
    by (rule ext) (simp add: mk_def orset_mark_fields)
  have "map (\<lambda>entry. (oe_hash entry, oe_tag entry)) (concat (os_buckets s')) =
        map (\<lambda>entry. (oe_hash entry, oe_tag entry)) (concat (os_buckets s))"
    unfolding cat map_map comp ..
  moreover have "distinct (map (\<lambda>entry. (oe_hash entry, oe_tag entry)) (concat (os_buckets s)))"
    using orset_wf_distinct [OF wf] unfolding orset_wf_entries [OF wf] .
  ultimately have d: "distinct (map (\<lambda>entry. (oe_hash entry, oe_tag entry))
                                  (concat (os_buckets s')))"
    by (simp only:)
  have wf': "orset_wf s'"
    using wf ok d by (intro orset_wfI) (simp_all add: orset_wf_def nb' b')
  have "orset_entries s' = map mk (orset_entries s)"
    using cat by (simp add: orset_wf_entries [OF wf] orset_wf_entries [OF wf'])
  then show ?thesis
    using rm wf' unfolding mk_def h_def by blast
qed

lemma orset_add_effect:
  assumes wf: "orset_wf s" and k: "k \<noteq> []"
    and fresh: "cauchy_uid_create (os_node_id s) (os_timestamp s + 1) \<notin>
                oe_tag ` set (orset_entries s)"
  defines "enew \<equiv> \<lparr>oe_data = k, oe_size = length k, oe_hash = hash_data k,
                     oe_tag = cauchy_uid_create (os_node_id s) (os_timestamp s + 1),
                     oe_removed = False\<rparr>"
  shows "\<exists>s'. cauchy_orset_add True (Some s) (Some k) = (CAUCHY_OK, Some s') \<and> orset_wf s' \<and>
              set (orset_entries s') = insert enew (set (orset_entries s))"
proof -
  define idx where "idx = unat (oe_hash enew mod os_num_buckets s)"
  define s' where "s' = s\<lparr>os_timestamp := os_timestamp s + 1,
       os_buckets := (os_buckets s)[idx := enew # os_buckets s ! idx],
       os_entry_count := os_entry_count s + 1, os_active_count := os_active_count s + 1\<rparr>"
  define s2 where "s2 = s\<lparr>os_buckets := (os_buckets s)[idx := enew # os_buckets s ! idx],
       os_entry_count := os_entry_count s + 1, os_active_count := os_active_count s + 1\<rparr>"
  have add: "cauchy_orset_add True (Some s) (Some k) = (CAUCHY_OK, Some s')"
    using k by (simp add: Let_def s'_def idx_def enew_def)
  have c: "oe_hash enew = hash_data (oe_data enew)" "oe_size enew = length (oe_data enew)"
    by (simp_all add: enew_def)
  have f: "\<forall>x \<in> set (orset_entries s). \<not> (oe_hash x = oe_hash enew \<and> oe_tag x = oe_tag enew)"
  proof
    fix x
    assume x: "x \<in> set (orset_entries s)"
    then have "oe_tag x \<in> oe_tag ` set (orset_entries s)"
      by (rule imageI)
    then have "oe_tag x \<noteq> oe_tag enew"
      using fresh by (auto simp: enew_def)
    then show "\<not> (oe_hash x = oe_hash enew \<and> oe_tag x = oe_tag enew)"
      by simp
  qed
  note ins = orset_insert_wf [OF wf c f, where ec = "os_entry_count s + 1"
      and ac = "os_active_count s + 1", folded idx_def, folded s2_def]
  have same: "os_buckets s' = os_buckets s2" "os_num_buckets s' = os_num_buckets s2"
    by (simp_all add: s'_def s2_def)
  have wf': "orset_wf s'"
    using ins(1) orset_same_table(1) [OF same] by simp
  have "set (orset_entries s2) = insert enew (set (orset_entries s))"
    using ins(2) by auto
  then have "set (orset_entries s') = insert enew (set (orset_entries s))"
    using orset_same_table(2) [OF same] by simp
  then show ?thesis
    using add wf' by blast
qed

lemma orset_chain_contains_iff:
  "orset_chain_contains c h d \<longleftrightarrow> (\<exists>e \<in> set c. orset_entry_matches e h d)"
  by (induction c) auto

lemma orset_contains_active:
  assumes wf: "orset_wf s" and k: "k \<noteq> []" and e: "e \<in> set (orset_entries s)"
    and kd: "oe_data e = k" and act: "\<not> oe_removed e"
  shows "cauchy_orset_contains (Some s) (Some k)"
proof -
  have h: "oe_hash e = hash_data k" and sz: "oe_size e = length k"
    using orset_wf_entry(2,3) [OF wf e] kd by simp_all
  have "e \<in> set (os_buckets s ! unat (hash_data k mod os_num_buckets s))"
    using orset_wf_entry(1) [OF wf e] h by simp
  moreover have "orset_entry_matches e (hash_data k) k"
    using h sz kd act by (simp add: orset_entry_matches_def memcmp_eq_def)
  ultimately show ?thesis
    using k by (auto simp: Let_def orset_chain_contains_iff)
qed

lemma orset_single_active:
  assumes wf: "orset_wf s" and e: "enew \<in> set (orset_entries s)"
    and kd: "oe_data enew = k" and act: "\<not> oe_removed enew"
    and only: "\<forall>x \<in> set (orset_entries s). oe_data x = k \<and> \<not> oe_removed x \<longrightarrow> x = enew"
  shows "filter (\<lambda>x. oe_data x = k \<and> \<not> oe_removed x) (orset_entries s) = [enew]"
proof -
  define xs where "xs = filter (\<lambda>x. oe_data x = k \<and> \<not> oe_removed x) (orset_entries s)"
  have d: "distinct xs"
    using orset_wf_entries_distinct [OF wf] by (simp add: xs_def)
  have "enew \<in> set xs" using e kd act by (simp add: xs_def)
  moreover have "\<forall>x \<in> set xs. x = enew" using only by (simp add: xs_def)
  ultimately have s: "set xs = {enew}" by blast
  have "length xs = card (set xs)" using d by (simp add: distinct_card)
  then have "length xs = 1" using s by simp
  then obtain y where "xs = [y]" by (cases xs) auto
  then show ?thesis using s unfolding xs_def by simp
qed

lemma orset_active_tags_set:
  "set (orset_active_tags s d) =
     oe_tag ` {e \<in> set (orset_entries s). oe_data e = d \<and> \<not> oe_removed e}"
  by (auto simp: orset_active_tags_def)

lemma orset_tags_set:
  "set (orset_tags s d) = oe_tag ` {e \<in> set (orset_entries s). oe_data e = d}"
  by (auto simp: orset_tags_def)

lemma orset_wf_cons:
  assumes "orset_wf s"
  shows "\<forall>e \<in> set (orset_entries s).
           oe_hash e = hash_data (oe_data e) \<and> oe_size e = length (oe_data e)"
  using orset_wf_entry(2,3) [OF assms] by blast

lemma orset_merge_effect:
  assumes wfd: "orset_wf dst" and wfs: "orset_wf src"
  shows "\<exists>M. cauchy_orset_merge True (Some dst) (Some src) = (CAUCHY_OK, Some M) \<and> orset_wf M \<and>
           (\<forall>x \<in> set (orset_entries dst).
              (\<forall>e \<in> set (orset_entries src). orset_key e = orset_key x \<longrightarrow> \<not> oe_removed e) \<longrightarrow>
              x \<in> set (orset_entries M)) \<and>
           (\<forall>x \<in> set (orset_entries dst). \<forall>e \<in> set (orset_entries src).
              orset_key e = orset_key x \<and> oe_removed e \<longrightarrow>
              x\<lparr>oe_removed := True\<rparr> \<in> set (orset_entries M)) \<and>
           (\<forall>e \<in> set (orset_entries src).
              orset_key e \<notin> orset_key ` set (orset_entries dst) \<longrightarrow> e \<in> set (orset_entries M)) \<and>
           (\<forall>y \<in> set (orset_entries M). \<not> oe_removed y \<longrightarrow>
              y \<in> set (orset_entries dst) \<or>
              (y \<in> set (orset_entries src) \<and> orset_key y \<notin> orset_key ` set (orset_entries dst)))"
proof -
  define es where "es = orset_entries src"
  define S where "S = set (orset_entries dst)"
  from orset_merge_loop_set [OF wfd orset_wf_cons [OF wfs]]
  obtain M where l: "orset_merge_loop True dst es = (CAUCHY_OK, M)" and wfM: "orset_wf M"
    and sM: "set (orset_entries M) = fold orset_merge_set es S"
    unfolding es_def S_def by blast
  have d: "distinct (map orset_key es)"
    unfolding es_def by (rule orset_wf_keys_distinct [OF wfs])
  have m: "cauchy_orset_merge True (Some dst) (Some src) = (CAUCHY_OK, Some M)"
    using l by (simp add: es_def)
  have 1: "\<forall>x \<in> S. (\<forall>e \<in> set es. orset_key e = orset_key x \<longrightarrow> \<not> oe_removed e) \<longrightarrow>
             x \<in> set (orset_entries M)"
    unfolding sM using orset_merge_fold_keeps by blast
  have 2: "\<forall>x \<in> S. \<forall>e \<in> set es. orset_key e = orset_key x \<and> oe_removed e \<longrightarrow>
             x\<lparr>oe_removed := True\<rparr> \<in> set (orset_entries M)"
    unfolding sM using orset_merge_fold_marks by blast
  have 3: "\<forall>e \<in> set es. orset_key e \<notin> orset_key ` S \<longrightarrow> e \<in> set (orset_entries M)"
    unfolding sM using orset_merge_fold_inserts [OF _ d] by blast
  have 4: "\<forall>y \<in> set (orset_entries M). \<not> oe_removed y \<longrightarrow>
             y \<in> S \<or> (y \<in> set es \<and> orset_key y \<notin> orset_key ` S)"
    unfolding sM using orset_merge_fold_active by blast
  show ?thesis
    using m wfM 1 2 3 4 unfolding es_def S_def by blast
qed

lemma orset_active_tags_single:
  assumes wf: "orset_wf s" and e: "enew \<in> set (orset_entries s)"
    and kd: "oe_data enew = k" and act: "\<not> oe_removed enew"
    and sub: "set (orset_active_tags s k) \<subseteq> {oe_tag enew}"
  shows "orset_active_tags s k = [oe_tag enew]"
proof -
  have "x = enew" if xin: "x \<in> set (orset_entries s)" and xk: "oe_data x = k"
    and xa: "\<not> oe_removed x" for x
  proof -
    have "oe_tag x \<in> set (orset_active_tags s k)"
      unfolding orset_active_tags_set using xin xk xa by blast
    then have t: "oe_tag x = oe_tag enew"
      using sub by blast
    have "oe_hash x = hash_data k" "oe_hash enew = hash_data k"
      using orset_wf_entry(2) [OF wf xin] orset_wf_entry(2) [OF wf e] xk kd by simp_all
    then have "orset_key x = orset_key enew"
      using t by (simp add: orset_key_def)
    then show ?thesis
      by (rule orset_wf_key_unique [OF wf xin e])
  qed
  then have "\<forall>x \<in> set (orset_entries s). oe_data x = k \<and> \<not> oe_removed x \<longrightarrow> x = enew"
    by blast
  from orset_single_active [OF wf e kd act this]
  show ?thesis
    by (simp add: orset_active_tags_def)
qed

text \<open>
  The tag \<open>cauchy_orset_add\<close> mints is \<open>(node_id, timestamp + 1)\<close>.  It is carried by no entry
  of a set whose entries under that node id all have a timestamp of at most the counter of
  the adding set, as long as the counter does not wrap.
\<close>

lemma orset_minted_tag_fresh:
  assumes "\<forall>e \<in> set (orset_entries R). uid_node_id (oe_tag e) = os_node_id R2 \<longrightarrow>
             uid_timestamp (oe_tag e) \<le> os_timestamp R2"
    and "os_timestamp R2 + 1 \<noteq> 0"
  shows "cauchy_uid_create (os_node_id R2) (os_timestamp R2 + 1) \<notin> oe_tag ` set (orset_entries R)"
proof
  assume "cauchy_uid_create (os_node_id R2) (os_timestamp R2 + 1) \<in> oe_tag ` set (orset_entries R)"
  then obtain e where e: "e \<in> set (orset_entries R)"
    and t: "oe_tag e = cauchy_uid_create (os_node_id R2) (os_timestamp R2 + 1)"
    by (metis imageE)
  have "uid_node_id (oe_tag e) = os_node_id R2" "uid_timestamp (oe_tag e) = os_timestamp R2 + 1"
    by (simp_all add: t cauchy_uid_create_def)
  then have "os_timestamp R2 + 1 \<le> os_timestamp R2"
    using assms(1) e by metis
  moreover have "\<not> os_timestamp R2 + 1 \<le> os_timestamp R2"
  proof -
    define x where "x = os_timestamp R2"
    have m: "unat (x + 1) = (unat x + 1) mod 2 ^ 64"
      by (simp add: unat_word_ariths)
    have nz: "unat (x + 1) \<noteq> 0"
      using assms(2) by (simp add: unat_eq_0 x_def)
    have "unat x < 2 ^ 64"
      using unsigned_less [of x, where ?'a = nat] by simp
    then have "unat x + 1 < 2 ^ 64"
      using m nz by (cases "unat x + 1 = 2 ^ 64") simp_all
    then have "unat (x + 1) = unat x + 1"
      using m by simp
    then show ?thesis
      by (simp add: word_le_nat_alt x_def)
  qed
  ultimately show False
    by simp
qed

text \<open>
  C1, as amended.  Let \<open>R1\<close> and \<open>R2\<close> be OR-Sets that satisfy the table invariant and both
  hold the payload \<open>k\<close> in an entry that is not removed and is tagged \<open>T0\<close>.  Let
  \<open>cauchy_orset_remove(k)\<close> be applied to \<open>R1\<close> and \<open>cauchy_orset_add(k)\<close> to \<open>R2\<close>, let the tag
  \<open>T2 = (R2.node_id, R2.timestamp + 1)\<close> that the add mints be fresh (no entry of \<open>R1\<close> or
  \<open>R2\<close> carries it), and let the allocations succeed.  Then both calls return \<open>CAUCHY_OK\<close>,
  and \<open>cauchy_orset_merge(R1, R2)\<close> and \<open>cauchy_orset_merge(R2, R1)\<close> return \<open>CAUCHY_OK\<close> with a
  state in which \<open>cauchy_orset_contains(k)\<close> is true, the entry tagged \<open>T2\<close> is an entry of \<open>k\<close>
  that is not removed, and no entry of \<open>k\<close> that is not removed is tagged \<open>T0\<close>.  Every entry
  of \<open>k\<close> that is not removed in either state is tagged \<open>T2\<close> or with a tag that \<open>R2\<close> held on
  an entry of \<open>k\<close> that was not removed and \<open>R1\<close> held on no entry of \<open>k\<close>.  So exactly one
  entry of \<open>k\<close> is not removed, the one tagged \<open>T2\<close>, whenever \<open>R1\<close> holds, removed or not,
  every tag of the entries of \<open>k\<close> that are not removed in \<open>R2\<close>; it does when the two
  replicas hold the same entries.
\<close>

theorem orset_add_wins:
  assumes wf1: "orset_wf R1" and wf2: "orset_wf R2" and k: "k \<noteq> []"
    and h1: "T0 \<in> set (orset_active_tags R1 k)"
    and h2: "T0 \<in> set (orset_active_tags R2 k)"
    and t2: "T2 = cauchy_uid_create (os_node_id R2) (os_timestamp R2 + 1)"
    and f1: "T2 \<notin> oe_tag ` set (orset_entries R1)"
    and f2: "T2 \<notin> oe_tag ` set (orset_entries R2)"
  shows "\<exists>R1' R2' M12 M21.
           cauchy_orset_remove (Some R1) (Some k) = (CAUCHY_OK, Some R1') \<and>
           cauchy_orset_add True (Some R2) (Some k) = (CAUCHY_OK, Some R2') \<and>
           cauchy_orset_merge True (Some R1') (Some R2') = (CAUCHY_OK, Some M12) \<and>
           cauchy_orset_merge True (Some R2') (Some R1') = (CAUCHY_OK, Some M21) \<and>
           cauchy_orset_contains (Some M12) (Some k) \<and>
           cauchy_orset_contains (Some M21) (Some k) \<and>
           T2 \<in> set (orset_active_tags M12 k) \<and> T2 \<in> set (orset_active_tags M21 k) \<and>
           T0 \<notin> set (orset_active_tags M12 k) \<and> T0 \<notin> set (orset_active_tags M21 k) \<and>
           T2 \<noteq> T0 \<and>
           set (orset_active_tags M12 k) \<subseteq>
             insert T2 (set (orset_active_tags R2 k) - set (orset_tags R1 k)) \<and>
           set (orset_active_tags M21 k) \<subseteq>
             insert T2 (set (orset_active_tags R2 k) - set (orset_tags R1 k)) \<and>
           (set (orset_active_tags R2 k) \<subseteq> set (orset_tags R1 k) \<longrightarrow>
              orset_active_tags M12 k = [T2] \<and> orset_active_tags M21 k = [T2])"
proof -
  define h where "h = hash_data k"
  define enew where "enew = \<lparr>oe_data = k, oe_size = length k, oe_hash = hash_data k,
                              oe_tag = T2, oe_removed = False\<rparr>"
  have n: "oe_data enew = k" "\<not> oe_removed enew" "oe_tag enew = T2" "oe_hash enew = h"
    by (simp_all add: enew_def h_def)
  \<comment> \<open>the entry of \<open>k\<close> under \<open>T0\<close> in the first replica\<close>
  obtain e1 where in1: "e1 \<in> set (orset_entries R1)" and k1: "oe_data e1 = k"
    and r1: "\<not> oe_removed e1" and t1: "oe_tag e1 = T0"
    using h1 unfolding orset_active_tags_set by blast
  have hk1: "oe_hash x = h" "oe_size x = length k"
    if "x \<in> set (orset_entries R1)" "oe_data x = k" for x
    using orset_wf_entry(2,3) [OF wf1 that(1)] that(2) by (simp_all add: h_def)
  have hk2: "oe_hash x = h" if "x \<in> set (orset_entries R2)" "oe_data x = k" for x
    using orset_wf_entry(2) [OF wf2 that(1)] that(2) by (simp add: h_def)
  have m1: "orset_entry_matches e1 h k"
    using hk1 [OF in1 k1] k1 r1 by (simp add: orset_entry_matches_def memcmp_eq_def)
  have T0in: "T0 \<in> set (orset_tags R1 k)"
    unfolding orset_tags_set using in1 k1 t1 by blast
  have tne: "T2 \<noteq> T0"
    using f1 in1 t1 by (metis imageI)
  \<comment> \<open>the two concurrent operations\<close>
  obtain R1' where rm: "cauchy_orset_remove (Some R1) (Some k) = (CAUCHY_OK, Some R1')"
    and wf1': "orset_wf R1'"
    and en1: "orset_entries R1' = map (orset_mark h k) (orset_entries R1)"
    using orset_remove_effect [OF wf1 k] in1 m1 unfolding h_def by blast
  obtain R2' where ad: "cauchy_orset_add True (Some R2) (Some k) = (CAUCHY_OK, Some R2')"
    and wf2': "orset_wf R2'"
    and en2: "set (orset_entries R2') = insert enew (set (orset_entries R2))"
    using orset_add_effect [OF wf2 k] f2 unfolding t2 enew_def by blast
  \<comment> \<open>the first replica after the remove: every entry of \<open>k\<close> is a tombstone\<close>
  have mark_key: "orset_key (orset_mark h k x) = orset_key x" for x
    by (simp add: orset_key_def orset_mark_fields)
  have keys1: "orset_key ` set (orset_entries R1') = orset_key ` set (orset_entries R1)"
    unfolding en1 by (simp add: image_image mark_key)
  have tags1: "oe_tag ` set (orset_entries R1') = oe_tag ` set (orset_entries R1)"
    unfolding en1 by (simp add: image_image orset_mark_fields)
  have dead1: "oe_removed y" if yin: "y \<in> set (orset_entries R1')" and yk: "oe_data y = k" for y
  proof -
    obtain x where xin: "x \<in> set (orset_entries R1)" and y: "y = orset_mark h k x"
      using yin unfolding en1 by auto
    have xk: "oe_data x = k"
      using yk y by (simp add: orset_mark_fields)
    show ?thesis
    proof (cases "oe_removed x")
      case True
      then show ?thesis
        unfolding y by (simp add: orset_mark_def)
    next
      case False
      then have "orset_entry_matches x h k"
        using hk1 [OF xin xk] xk by (simp add: orset_entry_matches_def memcmp_eq_def)
      then show ?thesis
        unfolding y by (simp add: orset_mark_def)
    qed
  qed
  have seen1: "\<exists>x' \<in> set (orset_entries R1'). orset_key x' = (h, t) \<and> oe_removed x'"
    if tin: "t \<in> set (orset_tags R1 k)" for t
  proof -
    obtain x where xin: "x \<in> set (orset_entries R1)" and xk: "oe_data x = k" and xt: "oe_tag x = t"
      using tin unfolding orset_tags_set by blast
    define x' where "x' = orset_mark h k x"
    have x'in: "x' \<in> set (orset_entries R1')"
      unfolding en1 x'_def using xin by simp
    have "oe_data x' = k"
      using xk by (simp add: x'_def orset_mark_fields)
    then have "oe_removed x'"
      using dead1 [OF x'in] by simp
    moreover have "orset_key x' = (h, t)"
      using hk1(1) [OF xin xk] xt by (simp add: x'_def orset_key_def orset_mark_fields)
    ultimately show ?thesis
      using x'in by blast
  qed
  have key1_tag: "t \<in> set (orset_tags R1 k) \<Longrightarrow> (h, t) \<in> orset_key ` set (orset_entries R1')" for t
    using seen1 by (metis imageI)
  \<comment> \<open>the second replica after the add\<close>
  have new2: "enew \<in> set (orset_entries R2')"
    unfolding en2 by simp
  have active2: "oe_tag y = T2 \<or> oe_tag y \<in> set (orset_active_tags R2 k)"
    if yin: "y \<in> set (orset_entries R2')" and yk: "oe_data y = k" and ya: "\<not> oe_removed y" for y
  proof (cases "y = enew")
    case True
    then show ?thesis using n(3) by simp
  next
    case False
    then have "y \<in> set (orset_entries R2)"
      using yin unfolding en2 by simp
    then show ?thesis
      unfolding orset_active_tags_set using yk ya by blast
  qed
  have hk2': "oe_hash y = h" if "y \<in> set (orset_entries R2')" "oe_data y = k" for y
    using orset_wf_entry(2) [OF wf2' that(1)] that(2) by (simp add: h_def)
  have newkey1: "orset_key enew \<notin> orset_key ` set (orset_entries R1')"
  proof
    assume "orset_key enew \<in> orset_key ` set (orset_entries R1')"
    then obtain x where "x \<in> set (orset_entries R1')" "orset_key x = orset_key enew"
      by (metis imageE)
    then have "oe_tag enew \<in> oe_tag ` set (orset_entries R1')"
      by (metis imageI orset_key_def snd_conv)
    then show False
      using f1 n(3) tags1 by simp
  qed
  \<comment> \<open>the merge into the replica that removed\<close>
  from orset_merge_effect [OF wf1' wf2']
  obtain M12 where mg12: "cauchy_orset_merge True (Some R1') (Some R2') = (CAUCHY_OK, Some M12)"
    and wf12: "orset_wf M12"
    and ins12: "\<forall>e \<in> set (orset_entries R2').
                  orset_key e \<notin> orset_key ` set (orset_entries R1') \<longrightarrow>
                  e \<in> set (orset_entries M12)"
    and act12: "\<forall>y \<in> set (orset_entries M12). \<not> oe_removed y \<longrightarrow>
                  y \<in> set (orset_entries R1') \<or>
                  (y \<in> set (orset_entries R2') \<and>
                   orset_key y \<notin> orset_key ` set (orset_entries R1'))"
    by blast
  have new12: "enew \<in> set (orset_entries M12)"
    using ins12 new2 newkey1 by blast
  have sup12: "set (orset_active_tags M12 k) \<subseteq>
               insert T2 (set (orset_active_tags R2 k) - set (orset_tags R1 k))"
  proof
    fix t
    assume "t \<in> set (orset_active_tags M12 k)"
    then obtain y where yin: "y \<in> set (orset_entries M12)" and yk: "oe_data y = k"
      and ya: "\<not> oe_removed y" and yt: "oe_tag y = t"
      unfolding orset_active_tags_set by blast
    have "y \<notin> set (orset_entries R1')"
      using dead1 yk ya by blast
    then have y2: "y \<in> set (orset_entries R2')"
      and yfresh: "orset_key y \<notin> orset_key ` set (orset_entries R1')"
      using act12 yin ya by blast+
    have ykey: "orset_key y = (h, t)"
      using hk2' [OF y2 yk] yt by (simp add: orset_key_def)
    have "t \<notin> set (orset_tags R1 k)"
      using key1_tag yfresh ykey by metis
    moreover have "t = T2 \<or> t \<in> set (orset_active_tags R2 k)"
      using active2 [OF y2 yk ya] yt by simp
    ultimately show "t \<in> insert T2 (set (orset_active_tags R2 k) - set (orset_tags R1 k))"
      by blast
  qed
  \<comment> \<open>the merge into the replica that added\<close>
  from orset_merge_effect [OF wf2' wf1']
  obtain M21 where mg21: "cauchy_orset_merge True (Some R2') (Some R1') = (CAUCHY_OK, Some M21)"
    and wf21: "orset_wf M21"
    and keep21: "\<forall>x \<in> set (orset_entries R2').
                   (\<forall>e \<in> set (orset_entries R1'). orset_key e = orset_key x \<longrightarrow> \<not> oe_removed e) \<longrightarrow>
                   x \<in> set (orset_entries M21)"
    and mark21: "\<forall>x \<in> set (orset_entries R2'). \<forall>e \<in> set (orset_entries R1').
                   orset_key e = orset_key x \<and> oe_removed e \<longrightarrow>
                   x\<lparr>oe_removed := True\<rparr> \<in> set (orset_entries M21)"
    and act21: "\<forall>y \<in> set (orset_entries M21). \<not> oe_removed y \<longrightarrow>
                  y \<in> set (orset_entries R2') \<or>
                  (y \<in> set (orset_entries R1') \<and>
                   orset_key y \<notin> orset_key ` set (orset_entries R2'))"
    by blast
  have "\<forall>e \<in> set (orset_entries R1'). orset_key e \<noteq> orset_key enew"
    using newkey1 by (metis imageI)
  then have new21: "enew \<in> set (orset_entries M21)"
    using keep21 new2 by blast
  have sup21: "set (orset_active_tags M21 k) \<subseteq>
               insert T2 (set (orset_active_tags R2 k) - set (orset_tags R1 k))"
  proof
    fix t
    assume "t \<in> set (orset_active_tags M21 k)"
    then obtain y where yin: "y \<in> set (orset_entries M21)" and yk: "oe_data y = k"
      and ya: "\<not> oe_removed y" and yt: "oe_tag y = t"
      unfolding orset_active_tags_set by blast
    have "y \<notin> set (orset_entries R1')"
      using dead1 yk ya by blast
    then have y2: "y \<in> set (orset_entries R2')"
      using act21 yin ya by blast
    have ykey: "orset_key y = (h, t)"
      using hk2' [OF y2 yk] yt by (simp add: orset_key_def)
    have "t \<notin> set (orset_tags R1 k)"
    proof
      assume "t \<in> set (orset_tags R1 k)"
      then obtain x' where x'in: "x' \<in> set (orset_entries R1')"
        and x'key: "orset_key x' = (h, t)" and x'r: "oe_removed x'"
        using seen1 by blast
      have "y\<lparr>oe_removed := True\<rparr> \<in> set (orset_entries M21)"
        using mark21 y2 x'in x'key ykey x'r by metis
      moreover have "orset_key (y\<lparr>oe_removed := True\<rparr>) = orset_key y"
        by simp
      ultimately have "y\<lparr>oe_removed := True\<rparr> = y"
        using orset_wf_key_unique [OF wf21 _ yin] by blast
      then have "oe_removed y"
        by (metis cauchy_orset_entry_t.select_convs(5) cauchy_orset_entry_t.surjective
            cauchy_orset_entry_t.update_convs(5))
      then show False
        using ya by simp
    qed
    moreover have "t = T2 \<or> t \<in> set (orset_active_tags R2 k)"
      using active2 [OF y2 yk ya] yt by simp
    ultimately show "t \<in> insert T2 (set (orset_active_tags R2 k) - set (orset_tags R1 k))"
      by blast
  qed
  \<comment> \<open>the conclusions\<close>
  have c12: "cauchy_orset_contains (Some M12) (Some k)"
    by (rule orset_contains_active [OF wf12 k new12 n(1) n(2)])
  have c21: "cauchy_orset_contains (Some M21) (Some k)"
    by (rule orset_contains_active [OF wf21 k new21 n(1) n(2)])
  have in12: "T2 \<in> set (orset_active_tags M12 k)"
    unfolding orset_active_tags_set using new12 n by blast
  have in21: "T2 \<in> set (orset_active_tags M21 k)"
    unfolding orset_active_tags_set using new21 n by blast
  have out12: "T0 \<notin> set (orset_active_tags M12 k)"
    using sup12 T0in tne by blast
  have out21: "T0 \<notin> set (orset_active_tags M21 k)"
    using sup21 T0in tne by blast
  have one: "orset_active_tags M12 k = [T2] \<and> orset_active_tags M21 k = [T2]"
    if seen: "set (orset_active_tags R2 k) \<subseteq> set (orset_tags R1 k)"
  proof
    have "set (orset_active_tags M12 k) \<subseteq> {oe_tag enew}"
      using sup12 seen n(3) by blast
    from orset_active_tags_single [OF wf12 new12 n(1) n(2) this]
    show "orset_active_tags M12 k = [T2]"
      using n(3) by simp
    have "set (orset_active_tags M21 k) \<subseteq> {oe_tag enew}"
      using sup21 seen n(3) by blast
    from orset_active_tags_single [OF wf21 new21 n(1) n(2) this]
    show "orset_active_tags M21 k = [T2]"
      using n(3) by simp
  qed
  show ?thesis
  proof (intro exI conjI)
    show "cauchy_orset_remove (Some R1) (Some k) = (CAUCHY_OK, Some R1')" by (rule rm)
    show "cauchy_orset_add True (Some R2) (Some k) = (CAUCHY_OK, Some R2')" by (rule ad)
    show "cauchy_orset_merge True (Some R1') (Some R2') = (CAUCHY_OK, Some M12)" by (rule mg12)
    show "cauchy_orset_merge True (Some R2') (Some R1') = (CAUCHY_OK, Some M21)" by (rule mg21)
    show "cauchy_orset_contains (Some M12) (Some k)" by (rule c12)
    show "cauchy_orset_contains (Some M21) (Some k)" by (rule c21)
    show "T2 \<in> set (orset_active_tags M12 k)" by (rule in12)
    show "T2 \<in> set (orset_active_tags M21 k)" by (rule in21)
    show "T0 \<notin> set (orset_active_tags M12 k)" by (rule out12)
    show "T0 \<notin> set (orset_active_tags M21 k)" by (rule out21)
    show "T2 \<noteq> T0" by (rule tne)
    show "set (orset_active_tags M12 k) \<subseteq>
            insert T2 (set (orset_active_tags R2 k) - set (orset_tags R1 k))" by (rule sup12)
    show "set (orset_active_tags M21 k) \<subseteq>
            insert T2 (set (orset_active_tags R2 k) - set (orset_tags R1 k))" by (rule sup21)
    show "set (orset_active_tags R2 k) \<subseteq> set (orset_tags R1 k) \<longrightarrow>
            orset_active_tags M12 k = [T2] \<and> orset_active_tags M21 k = [T2]"
      using one by blast
  qed
qed

theorem orset_add_wins_witness:
  "(orset_wf \<lparr>os_buckets = [[\<lparr>oe_data = [107], oe_size = 1, oe_hash = hash_data [107],
        oe_tag = \<lparr>uid_node_id = 1, uid_timestamp = 2\<rparr>, oe_removed = False\<rparr>,
      \<lparr>oe_data = [107], oe_size = 1, oe_hash = hash_data [107],
        oe_tag = \<lparr>uid_node_id = 1, uid_timestamp = 1\<rparr>, oe_removed = True\<rparr>]],
      os_num_buckets = 1, os_entry_count = 2, os_active_count = 1,
      os_node_id = 1, os_timestamp = 2\<rparr>) \<and>
   (orset_wf \<lparr>os_buckets = [[\<lparr>oe_data = [107], oe_size = 1, oe_hash = hash_data [107],
        oe_tag = \<lparr>uid_node_id = 1, uid_timestamp = 2\<rparr>, oe_removed = False\<rparr>,
      \<lparr>oe_data = [107], oe_size = 1, oe_hash = hash_data [107],
        oe_tag = \<lparr>uid_node_id = 1, uid_timestamp = 1\<rparr>, oe_removed = True\<rparr>]],
      os_num_buckets = 1, os_entry_count = 2, os_active_count = 1,
      os_node_id = 2, os_timestamp = 0\<rparr>) \<and>
   ([107 :: u8] \<noteq> []) \<and>
   (\<lparr>uid_node_id = 1, uid_timestamp = 2\<rparr> \<in> set (orset_active_tags \<lparr>os_buckets = [[\<lparr>oe_data = [107], oe_size = 1, oe_hash = hash_data [107],
        oe_tag = \<lparr>uid_node_id = 1, uid_timestamp = 2\<rparr>, oe_removed = False\<rparr>,
      \<lparr>oe_data = [107], oe_size = 1, oe_hash = hash_data [107],
        oe_tag = \<lparr>uid_node_id = 1, uid_timestamp = 1\<rparr>, oe_removed = True\<rparr>]],
      os_num_buckets = 1, os_entry_count = 2, os_active_count = 1,
      os_node_id = 1, os_timestamp = 2\<rparr> [107])) \<and>
   (\<lparr>uid_node_id = 1, uid_timestamp = 2\<rparr> \<in> set (orset_active_tags \<lparr>os_buckets = [[\<lparr>oe_data = [107], oe_size = 1, oe_hash = hash_data [107],
        oe_tag = \<lparr>uid_node_id = 1, uid_timestamp = 2\<rparr>, oe_removed = False\<rparr>,
      \<lparr>oe_data = [107], oe_size = 1, oe_hash = hash_data [107],
        oe_tag = \<lparr>uid_node_id = 1, uid_timestamp = 1\<rparr>, oe_removed = True\<rparr>]],
      os_num_buckets = 1, os_entry_count = 2, os_active_count = 1,
      os_node_id = 2, os_timestamp = 0\<rparr> [107])) \<and>
   (\<lparr>uid_node_id = 2, uid_timestamp = 1\<rparr> = cauchy_uid_create (os_node_id \<lparr>os_buckets = [[\<lparr>oe_data = [107], oe_size = 1, oe_hash = hash_data [107],
        oe_tag = \<lparr>uid_node_id = 1, uid_timestamp = 2\<rparr>, oe_removed = False\<rparr>,
      \<lparr>oe_data = [107], oe_size = 1, oe_hash = hash_data [107],
        oe_tag = \<lparr>uid_node_id = 1, uid_timestamp = 1\<rparr>, oe_removed = True\<rparr>]],
      os_num_buckets = 1, os_entry_count = 2, os_active_count = 1,
      os_node_id = 2, os_timestamp = 0\<rparr>) (os_timestamp \<lparr>os_buckets = [[\<lparr>oe_data = [107], oe_size = 1, oe_hash = hash_data [107],
        oe_tag = \<lparr>uid_node_id = 1, uid_timestamp = 2\<rparr>, oe_removed = False\<rparr>,
      \<lparr>oe_data = [107], oe_size = 1, oe_hash = hash_data [107],
        oe_tag = \<lparr>uid_node_id = 1, uid_timestamp = 1\<rparr>, oe_removed = True\<rparr>]],
      os_num_buckets = 1, os_entry_count = 2, os_active_count = 1,
      os_node_id = 2, os_timestamp = 0\<rparr> + 1)) \<and>
   (\<lparr>uid_node_id = 2, uid_timestamp = 1\<rparr> \<notin> oe_tag ` set (orset_entries \<lparr>os_buckets = [[\<lparr>oe_data = [107], oe_size = 1, oe_hash = hash_data [107],
        oe_tag = \<lparr>uid_node_id = 1, uid_timestamp = 2\<rparr>, oe_removed = False\<rparr>,
      \<lparr>oe_data = [107], oe_size = 1, oe_hash = hash_data [107],
        oe_tag = \<lparr>uid_node_id = 1, uid_timestamp = 1\<rparr>, oe_removed = True\<rparr>]],
      os_num_buckets = 1, os_entry_count = 2, os_active_count = 1,
      os_node_id = 1, os_timestamp = 2\<rparr>)) \<and>
   (\<lparr>uid_node_id = 2, uid_timestamp = 1\<rparr> \<notin> oe_tag ` set (orset_entries \<lparr>os_buckets = [[\<lparr>oe_data = [107], oe_size = 1, oe_hash = hash_data [107],
        oe_tag = \<lparr>uid_node_id = 1, uid_timestamp = 2\<rparr>, oe_removed = False\<rparr>,
      \<lparr>oe_data = [107], oe_size = 1, oe_hash = hash_data [107],
        oe_tag = \<lparr>uid_node_id = 1, uid_timestamp = 1\<rparr>, oe_removed = True\<rparr>]],
      os_num_buckets = 1, os_entry_count = 2, os_active_count = 1,
      os_node_id = 2, os_timestamp = 0\<rparr>)) \<and>
   (set (orset_active_tags \<lparr>os_buckets = [[\<lparr>oe_data = [107], oe_size = 1, oe_hash = hash_data [107],
        oe_tag = \<lparr>uid_node_id = 1, uid_timestamp = 2\<rparr>, oe_removed = False\<rparr>,
      \<lparr>oe_data = [107], oe_size = 1, oe_hash = hash_data [107],
        oe_tag = \<lparr>uid_node_id = 1, uid_timestamp = 1\<rparr>, oe_removed = True\<rparr>]],
      os_num_buckets = 1, os_entry_count = 2, os_active_count = 1,
      os_node_id = 2, os_timestamp = 0\<rparr> [107]) \<subseteq> set (orset_tags \<lparr>os_buckets = [[\<lparr>oe_data = [107], oe_size = 1, oe_hash = hash_data [107],
        oe_tag = \<lparr>uid_node_id = 1, uid_timestamp = 2\<rparr>, oe_removed = False\<rparr>,
      \<lparr>oe_data = [107], oe_size = 1, oe_hash = hash_data [107],
        oe_tag = \<lparr>uid_node_id = 1, uid_timestamp = 1\<rparr>, oe_removed = True\<rparr>]],
      os_num_buckets = 1, os_entry_count = 2, os_active_count = 1,
      os_node_id = 1, os_timestamp = 2\<rparr> [107])) \<and>
   (\<exists>R1' R2' M12 M21.
      cauchy_orset_remove (Some \<lparr>os_buckets = [[\<lparr>oe_data = [107], oe_size = 1, oe_hash = hash_data [107],
        oe_tag = \<lparr>uid_node_id = 1, uid_timestamp = 2\<rparr>, oe_removed = False\<rparr>,
      \<lparr>oe_data = [107], oe_size = 1, oe_hash = hash_data [107],
        oe_tag = \<lparr>uid_node_id = 1, uid_timestamp = 1\<rparr>, oe_removed = True\<rparr>]],
      os_num_buckets = 1, os_entry_count = 2, os_active_count = 1,
      os_node_id = 1, os_timestamp = 2\<rparr>) (Some [107]) = (CAUCHY_OK, Some R1') \<and>
      cauchy_orset_add True (Some \<lparr>os_buckets = [[\<lparr>oe_data = [107], oe_size = 1, oe_hash = hash_data [107],
        oe_tag = \<lparr>uid_node_id = 1, uid_timestamp = 2\<rparr>, oe_removed = False\<rparr>,
      \<lparr>oe_data = [107], oe_size = 1, oe_hash = hash_data [107],
        oe_tag = \<lparr>uid_node_id = 1, uid_timestamp = 1\<rparr>, oe_removed = True\<rparr>]],
      os_num_buckets = 1, os_entry_count = 2, os_active_count = 1,
      os_node_id = 2, os_timestamp = 0\<rparr>) (Some [107]) = (CAUCHY_OK, Some R2') \<and>
      cauchy_orset_merge True (Some R1') (Some R2') = (CAUCHY_OK, Some M12) \<and>
      cauchy_orset_merge True (Some R2') (Some R1') = (CAUCHY_OK, Some M21) \<and>
      cauchy_orset_contains (Some M12) (Some [107]) \<and>
      cauchy_orset_contains (Some M21) (Some [107]) \<and>
      \<lparr>uid_node_id = 2, uid_timestamp = 1\<rparr> \<in> set (orset_active_tags M12 [107]) \<and>
      \<lparr>uid_node_id = 2, uid_timestamp = 1\<rparr> \<in> set (orset_active_tags M21 [107]) \<and>
      \<lparr>uid_node_id = 1, uid_timestamp = 2\<rparr> \<notin> set (orset_active_tags M12 [107]) \<and>
      \<lparr>uid_node_id = 1, uid_timestamp = 2\<rparr> \<notin> set (orset_active_tags M21 [107]) \<and>
      \<lparr>uid_node_id = 2, uid_timestamp = 1\<rparr> \<noteq> \<lparr>uid_node_id = 1, uid_timestamp = 2\<rparr> \<and>
      set (orset_active_tags M12 [107]) \<subseteq>
        insert \<lparr>uid_node_id = 2, uid_timestamp = 1\<rparr>
          (set (orset_active_tags \<lparr>os_buckets = [[\<lparr>oe_data = [107], oe_size = 1, oe_hash = hash_data [107],
        oe_tag = \<lparr>uid_node_id = 1, uid_timestamp = 2\<rparr>, oe_removed = False\<rparr>,
      \<lparr>oe_data = [107], oe_size = 1, oe_hash = hash_data [107],
        oe_tag = \<lparr>uid_node_id = 1, uid_timestamp = 1\<rparr>, oe_removed = True\<rparr>]],
      os_num_buckets = 1, os_entry_count = 2, os_active_count = 1,
      os_node_id = 2, os_timestamp = 0\<rparr> [107]) -
           set (orset_tags \<lparr>os_buckets = [[\<lparr>oe_data = [107], oe_size = 1, oe_hash = hash_data [107],
        oe_tag = \<lparr>uid_node_id = 1, uid_timestamp = 2\<rparr>, oe_removed = False\<rparr>,
      \<lparr>oe_data = [107], oe_size = 1, oe_hash = hash_data [107],
        oe_tag = \<lparr>uid_node_id = 1, uid_timestamp = 1\<rparr>, oe_removed = True\<rparr>]],
      os_num_buckets = 1, os_entry_count = 2, os_active_count = 1,
      os_node_id = 1, os_timestamp = 2\<rparr> [107])) \<and>
      set (orset_active_tags M21 [107]) \<subseteq>
        insert \<lparr>uid_node_id = 2, uid_timestamp = 1\<rparr>
          (set (orset_active_tags \<lparr>os_buckets = [[\<lparr>oe_data = [107], oe_size = 1, oe_hash = hash_data [107],
        oe_tag = \<lparr>uid_node_id = 1, uid_timestamp = 2\<rparr>, oe_removed = False\<rparr>,
      \<lparr>oe_data = [107], oe_size = 1, oe_hash = hash_data [107],
        oe_tag = \<lparr>uid_node_id = 1, uid_timestamp = 1\<rparr>, oe_removed = True\<rparr>]],
      os_num_buckets = 1, os_entry_count = 2, os_active_count = 1,
      os_node_id = 2, os_timestamp = 0\<rparr> [107]) -
           set (orset_tags \<lparr>os_buckets = [[\<lparr>oe_data = [107], oe_size = 1, oe_hash = hash_data [107],
        oe_tag = \<lparr>uid_node_id = 1, uid_timestamp = 2\<rparr>, oe_removed = False\<rparr>,
      \<lparr>oe_data = [107], oe_size = 1, oe_hash = hash_data [107],
        oe_tag = \<lparr>uid_node_id = 1, uid_timestamp = 1\<rparr>, oe_removed = True\<rparr>]],
      os_num_buckets = 1, os_entry_count = 2, os_active_count = 1,
      os_node_id = 1, os_timestamp = 2\<rparr> [107])) \<and>
      (set (orset_active_tags \<lparr>os_buckets = [[\<lparr>oe_data = [107], oe_size = 1, oe_hash = hash_data [107],
        oe_tag = \<lparr>uid_node_id = 1, uid_timestamp = 2\<rparr>, oe_removed = False\<rparr>,
      \<lparr>oe_data = [107], oe_size = 1, oe_hash = hash_data [107],
        oe_tag = \<lparr>uid_node_id = 1, uid_timestamp = 1\<rparr>, oe_removed = True\<rparr>]],
      os_num_buckets = 1, os_entry_count = 2, os_active_count = 1,
      os_node_id = 2, os_timestamp = 0\<rparr> [107]) \<subseteq>
         set (orset_tags \<lparr>os_buckets = [[\<lparr>oe_data = [107], oe_size = 1, oe_hash = hash_data [107],
        oe_tag = \<lparr>uid_node_id = 1, uid_timestamp = 2\<rparr>, oe_removed = False\<rparr>,
      \<lparr>oe_data = [107], oe_size = 1, oe_hash = hash_data [107],
        oe_tag = \<lparr>uid_node_id = 1, uid_timestamp = 1\<rparr>, oe_removed = True\<rparr>]],
      os_num_buckets = 1, os_entry_count = 2, os_active_count = 1,
      os_node_id = 1, os_timestamp = 2\<rparr> [107]) \<longrightarrow>
       orset_active_tags M12 [107] = [\<lparr>uid_node_id = 2, uid_timestamp = 1\<rparr>] \<and>
       orset_active_tags M21 [107] = [\<lparr>uid_node_id = 2, uid_timestamp = 1\<rparr>]))"
proof -
  have h1: "orset_wf \<lparr>os_buckets = [[\<lparr>oe_data = [107], oe_size = 1, oe_hash = hash_data [107],
        oe_tag = \<lparr>uid_node_id = 1, uid_timestamp = 2\<rparr>, oe_removed = False\<rparr>,
      \<lparr>oe_data = [107], oe_size = 1, oe_hash = hash_data [107],
        oe_tag = \<lparr>uid_node_id = 1, uid_timestamp = 1\<rparr>, oe_removed = True\<rparr>]],
      os_num_buckets = 1, os_entry_count = 2, os_active_count = 1,
      os_node_id = 1, os_timestamp = 2\<rparr>"
    by (simp add: orset_wf_def orset_entry_ok_def orset_entries_def)
  have h2: "orset_wf \<lparr>os_buckets = [[\<lparr>oe_data = [107], oe_size = 1, oe_hash = hash_data [107],
        oe_tag = \<lparr>uid_node_id = 1, uid_timestamp = 2\<rparr>, oe_removed = False\<rparr>,
      \<lparr>oe_data = [107], oe_size = 1, oe_hash = hash_data [107],
        oe_tag = \<lparr>uid_node_id = 1, uid_timestamp = 1\<rparr>, oe_removed = True\<rparr>]],
      os_num_buckets = 1, os_entry_count = 2, os_active_count = 1,
      os_node_id = 2, os_timestamp = 0\<rparr>"
    by (simp add: orset_wf_def orset_entry_ok_def orset_entries_def)
  have h3: "[107 :: u8] \<noteq> []"
    by simp
  have h4: "\<lparr>uid_node_id = 1, uid_timestamp = 2\<rparr> \<in> set (orset_active_tags \<lparr>os_buckets = [[\<lparr>oe_data = [107], oe_size = 1, oe_hash = hash_data [107],
        oe_tag = \<lparr>uid_node_id = 1, uid_timestamp = 2\<rparr>, oe_removed = False\<rparr>,
      \<lparr>oe_data = [107], oe_size = 1, oe_hash = hash_data [107],
        oe_tag = \<lparr>uid_node_id = 1, uid_timestamp = 1\<rparr>, oe_removed = True\<rparr>]],
      os_num_buckets = 1, os_entry_count = 2, os_active_count = 1,
      os_node_id = 1, os_timestamp = 2\<rparr> [107])"
    by (simp add: orset_active_tags_def orset_entries_def)
  have h5: "\<lparr>uid_node_id = 1, uid_timestamp = 2\<rparr> \<in> set (orset_active_tags \<lparr>os_buckets = [[\<lparr>oe_data = [107], oe_size = 1, oe_hash = hash_data [107],
        oe_tag = \<lparr>uid_node_id = 1, uid_timestamp = 2\<rparr>, oe_removed = False\<rparr>,
      \<lparr>oe_data = [107], oe_size = 1, oe_hash = hash_data [107],
        oe_tag = \<lparr>uid_node_id = 1, uid_timestamp = 1\<rparr>, oe_removed = True\<rparr>]],
      os_num_buckets = 1, os_entry_count = 2, os_active_count = 1,
      os_node_id = 2, os_timestamp = 0\<rparr> [107])"
    by (simp add: orset_active_tags_def orset_entries_def)
  have h6: "\<lparr>uid_node_id = 2, uid_timestamp = 1\<rparr> = cauchy_uid_create (os_node_id \<lparr>os_buckets = [[\<lparr>oe_data = [107], oe_size = 1, oe_hash = hash_data [107],
        oe_tag = \<lparr>uid_node_id = 1, uid_timestamp = 2\<rparr>, oe_removed = False\<rparr>,
      \<lparr>oe_data = [107], oe_size = 1, oe_hash = hash_data [107],
        oe_tag = \<lparr>uid_node_id = 1, uid_timestamp = 1\<rparr>, oe_removed = True\<rparr>]],
      os_num_buckets = 1, os_entry_count = 2, os_active_count = 1,
      os_node_id = 2, os_timestamp = 0\<rparr>) (os_timestamp \<lparr>os_buckets = [[\<lparr>oe_data = [107], oe_size = 1, oe_hash = hash_data [107],
        oe_tag = \<lparr>uid_node_id = 1, uid_timestamp = 2\<rparr>, oe_removed = False\<rparr>,
      \<lparr>oe_data = [107], oe_size = 1, oe_hash = hash_data [107],
        oe_tag = \<lparr>uid_node_id = 1, uid_timestamp = 1\<rparr>, oe_removed = True\<rparr>]],
      os_num_buckets = 1, os_entry_count = 2, os_active_count = 1,
      os_node_id = 2, os_timestamp = 0\<rparr> + 1)"
    by (simp add: cauchy_uid_create_def)
  have h7: "\<lparr>uid_node_id = 2, uid_timestamp = 1\<rparr> \<notin> oe_tag ` set (orset_entries \<lparr>os_buckets = [[\<lparr>oe_data = [107], oe_size = 1, oe_hash = hash_data [107],
        oe_tag = \<lparr>uid_node_id = 1, uid_timestamp = 2\<rparr>, oe_removed = False\<rparr>,
      \<lparr>oe_data = [107], oe_size = 1, oe_hash = hash_data [107],
        oe_tag = \<lparr>uid_node_id = 1, uid_timestamp = 1\<rparr>, oe_removed = True\<rparr>]],
      os_num_buckets = 1, os_entry_count = 2, os_active_count = 1,
      os_node_id = 1, os_timestamp = 2\<rparr>)"
    by (simp add: orset_entries_def)
  have h8: "\<lparr>uid_node_id = 2, uid_timestamp = 1\<rparr> \<notin> oe_tag ` set (orset_entries \<lparr>os_buckets = [[\<lparr>oe_data = [107], oe_size = 1, oe_hash = hash_data [107],
        oe_tag = \<lparr>uid_node_id = 1, uid_timestamp = 2\<rparr>, oe_removed = False\<rparr>,
      \<lparr>oe_data = [107], oe_size = 1, oe_hash = hash_data [107],
        oe_tag = \<lparr>uid_node_id = 1, uid_timestamp = 1\<rparr>, oe_removed = True\<rparr>]],
      os_num_buckets = 1, os_entry_count = 2, os_active_count = 1,
      os_node_id = 2, os_timestamp = 0\<rparr>)"
    by (simp add: orset_entries_def)
  have h9: "set (orset_active_tags \<lparr>os_buckets = [[\<lparr>oe_data = [107], oe_size = 1, oe_hash = hash_data [107],
        oe_tag = \<lparr>uid_node_id = 1, uid_timestamp = 2\<rparr>, oe_removed = False\<rparr>,
      \<lparr>oe_data = [107], oe_size = 1, oe_hash = hash_data [107],
        oe_tag = \<lparr>uid_node_id = 1, uid_timestamp = 1\<rparr>, oe_removed = True\<rparr>]],
      os_num_buckets = 1, os_entry_count = 2, os_active_count = 1,
      os_node_id = 2, os_timestamp = 0\<rparr> [107]) \<subseteq> set (orset_tags \<lparr>os_buckets = [[\<lparr>oe_data = [107], oe_size = 1, oe_hash = hash_data [107],
        oe_tag = \<lparr>uid_node_id = 1, uid_timestamp = 2\<rparr>, oe_removed = False\<rparr>,
      \<lparr>oe_data = [107], oe_size = 1, oe_hash = hash_data [107],
        oe_tag = \<lparr>uid_node_id = 1, uid_timestamp = 1\<rparr>, oe_removed = True\<rparr>]],
      os_num_buckets = 1, os_entry_count = 2, os_active_count = 1,
      os_node_id = 1, os_timestamp = 2\<rparr> [107])"
    by (simp add: orset_active_tags_def orset_tags_def orset_entries_def)
  show ?thesis
    using h1 h2 h3 h4 h5 h6 h7 h8 h9
      orset_add_wins [OF h1 h2 h3 h4 h5 h6 h7 h8]
    by (intro conjI)
qed

text \<open>
  Without these two conditions the claim fails, on sets built with the operations of the
  library (payload \<open>k\<close>, one bucket).

  First, let \<open>R1\<close> be a set of node 1 after \<open>add(k)\<close>, which mints \<open>T0 = (1, 1)\<close>, and \<open>R2\<close> a
  set of node 2 after a merge of \<open>R1\<close> and an \<open>add(k)\<close> of its own, which mints \<open>(2, 1)\<close>.  Both
  hold \<open>k\<close> under \<open>T0\<close>.  After the remove on \<open>R1\<close> and the add on \<open>R2\<close>, which mints the fresh
  tag \<open>T2 = (2, 2)\<close>, both merges hold two entries of \<open>k\<close> that are not removed, tagged
  \<open>(2, 1)\<close> and \<open>(2, 2)\<close>.

  Second, let \<open>A\<close> be a set of node 2 after \<open>add(k)\<close>, which mints \<open>T0 = (2, 1)\<close>, and let \<open>R1\<close>
  (of node 1) and \<open>R2\<close> (a new set of node 2) each be the result of merging \<open>A\<close> into an
  empty set.  \<open>cauchy_orset_merge\<close> leaves the counter of \<open>R2\<close> at 0, so the add on \<open>R2\<close> mints
  \<open>(2, 1)\<close> again, the tag is not fresh, and \<open>cauchy_orset_merge(R1, R2)\<close> does not contain
  \<open>k\<close> while \<open>cauchy_orset_merge(R2, R1)\<close> does.
\<close>

theorem orset_add_wins_counterexample:
  "(let k = [107 :: u8];
        R1 = snd (cauchy_orset_add True (cauchy_orset_create True 1 1) (Some k));
        R2 = snd (cauchy_orset_add True
                    (snd (cauchy_orset_merge True (cauchy_orset_create True 1 2) R1)) (Some k));
        R1' = cauchy_orset_remove R1 (Some k);
        R2' = cauchy_orset_add True R2 (Some k);
        M12 = cauchy_orset_merge True (snd R1') (snd R2');
        M21 = cauchy_orset_merge True (snd R2') (snd R1')
    in map_option orset_wf R1 = Some True \<and> map_option orset_wf R2 = Some True \<and>
       map_option (\<lambda>s. map oe_tag (orset_entries s)) R1 =
         Some [\<lparr>uid_node_id = 1, uid_timestamp = 1\<rparr>] \<and>
       map_option (\<lambda>s. map oe_tag (orset_entries s)) R2 =
         Some [\<lparr>uid_node_id = 2, uid_timestamp = 1\<rparr>, \<lparr>uid_node_id = 1, uid_timestamp = 1\<rparr>] \<and>
       map_option (\<lambda>s. orset_active_tags s k) R1 =
         Some [\<lparr>uid_node_id = 1, uid_timestamp = 1\<rparr>] \<and>
       map_option (\<lambda>s. orset_active_tags s k) R2 =
         Some [\<lparr>uid_node_id = 2, uid_timestamp = 1\<rparr>, \<lparr>uid_node_id = 1, uid_timestamp = 1\<rparr>] \<and>
       fst R1' = CAUCHY_OK \<and> fst R2' = CAUCHY_OK \<and>
       map_option (\<lambda>s. orset_active_tags s k) (snd R2') =
         Some [\<lparr>uid_node_id = 2, uid_timestamp = 2\<rparr>, \<lparr>uid_node_id = 2, uid_timestamp = 1\<rparr>,
               \<lparr>uid_node_id = 1, uid_timestamp = 1\<rparr>] \<and>
       fst M12 = CAUCHY_OK \<and> fst M21 = CAUCHY_OK \<and>
       map_option (\<lambda>s. orset_active_tags s k) (snd M12) =
         Some [\<lparr>uid_node_id = 2, uid_timestamp = 1\<rparr>, \<lparr>uid_node_id = 2, uid_timestamp = 2\<rparr>] \<and>
       map_option (\<lambda>s. orset_active_tags s k) (snd M21) =
         Some [\<lparr>uid_node_id = 2, uid_timestamp = 2\<rparr>, \<lparr>uid_node_id = 2, uid_timestamp = 1\<rparr>]) \<and>
   (let k = [107 :: u8];
        A = snd (cauchy_orset_add True (cauchy_orset_create True 1 2) (Some k));
        R1 = snd (cauchy_orset_merge True (cauchy_orset_create True 1 1) A);
        R2 = snd (cauchy_orset_merge True (cauchy_orset_create True 1 2) A);
        R1' = cauchy_orset_remove R1 (Some k);
        R2' = cauchy_orset_add True R2 (Some k);
        M12 = cauchy_orset_merge True (snd R1') (snd R2');
        M21 = cauchy_orset_merge True (snd R2') (snd R1')
    in map_option orset_wf R1 = Some True \<and> map_option orset_wf R2 = Some True \<and>
       map_option (\<lambda>s. orset_active_tags s k) R1 =
         Some [\<lparr>uid_node_id = 2, uid_timestamp = 1\<rparr>] \<and>
       map_option (\<lambda>s. orset_active_tags s k) R2 =
         Some [\<lparr>uid_node_id = 2, uid_timestamp = 1\<rparr>] \<and>
       fst R1' = CAUCHY_OK \<and> fst R2' = CAUCHY_OK \<and>
       map_option (\<lambda>s. orset_active_tags s k) (snd R2') =
         Some [\<lparr>uid_node_id = 2, uid_timestamp = 1\<rparr>, \<lparr>uid_node_id = 2, uid_timestamp = 1\<rparr>] \<and>
       fst M12 = CAUCHY_OK \<and> fst M21 = CAUCHY_OK \<and>
       \<not> cauchy_orset_contains (snd M12) (Some k) \<and>
       cauchy_orset_contains (snd M21) (Some k))"
  by code_simp

end
